theory Spec2Isabelle
  imports Main
begin

section \<open>Machine integers and Go slices\<close>

text \<open>
  Terms, log indices and durations are Go \<open>int64\<close> values. They are modelled as \<open>int\<close>;
  \<open>wrap64\<close> is written at every addition and subtraction whose operands the code does
  not bound first, and \<open>is_int64\<close> is the range of the type.
\<close>

definition is_int64 :: "int \<Rightarrow> bool" where
  "is_int64 x \<longleftrightarrow> - (2 ^ 63) \<le> x \<and> x < 2 ^ 63"

definition wrap64 :: "int \<Rightarrow> int" where
  "wrap64 x = (x + 2 ^ 63) mod 2 ^ 64 - 2 ^ 63"

text \<open>
  A nil dereference or an index out of range is \<open>Panic\<close>; \<open>log.Fatalf\<close> (which prints and
  exits the process) is \<open>Fatal\<close>.
\<close>

datatype error = Panic | Fatal

text \<open>Go's \<open>xs[i]\<close> and \<open>xs[i:]\<close> on a slice: both panic out of range.\<close>

definition index_at :: "'a list \<Rightarrow> int \<Rightarrow> error + 'a" where
  "index_at xs i = (if 0 \<le> i \<and> i < int (length xs) then Inr (xs ! nat i) else Inl Panic)"

definition slice_from :: "'a list \<Rightarrow> int \<Rightarrow> error + 'a list" where
  "slice_from xs i = (if 0 \<le> i \<and> i \<le> int (length xs) then Inr (drop (nat i) xs) else Inl Panic)"

section \<open>Messages (pb/kv.proto)\<close>

record KeyValue =
  Key :: string
  Value :: string

text \<open>
  \<open>CASArg\<close> holds two message pointers, \<open>Kv *KeyValue\<close> and \<open>Value *Value\<close>; the
  \<open>Value\<close> message has the single string field \<open>Value\<close>. \<open>None\<close> is the nil pointer.
\<close>

record CASArg =
  Kv :: "KeyValue option"
  CasValue :: "string option"

record Servers =
  CurrList :: string
  NewList :: string

datatype Op = GET | SET | CLEAR | CAS | CONFIG_CHG

text \<open>
  The \<open>oneof arg\<close> of a command. Each variant holds a message pointer (\<open>Key\<close> has the
  single string field \<open>Key\<close>); \<open>NoArg\<close> is the unset oneof.
\<close>

datatype Arg =
    NoArg
  | Command_Get "string option"
  | Command_Set "KeyValue option"
  | Command_Clear
  | Command_Cas "CASArg option"
  | Command_Servers "Servers option"

record Command =
  Operation :: Op
  Arg :: Arg

text \<open>The generated getters: nil unless the oneof holds that variant.\<close>

definition GetGet :: "Command \<Rightarrow> string option" where
  "GetGet c = (case Arg c of Command_Get k \<Rightarrow> k | _ \<Rightarrow> None)"

definition GetSet :: "Command \<Rightarrow> KeyValue option" where
  "GetSet c = (case Arg c of Command_Set kv \<Rightarrow> kv | _ \<Rightarrow> None)"

definition GetCas :: "Command \<Rightarrow> CASArg option" where
  "GetCas c = (case Arg c of Command_Cas a \<Rightarrow> a | _ \<Rightarrow> None)"

text \<open>\<open>pb.Result\<close>: \<open>Result_blank\<close> is \<open>pb.Result{}\<close>, whose oneof is unset.\<close>

datatype Result =
    Result_blank
  | Result_Redirect string
  | Result_Kv KeyValue
  | Result_S
  | Result_Failure string

text \<open>The value a key/value result carries.\<close>

definition result_value :: "Result \<Rightarrow> string" where
  "result_value res = (case res of Result_Kv kv \<Rightarrow> Value kv | _ \<Rightarrow> [])"

section \<open>The key-value state machine\<close>

text \<open>A channel is modelled by its identity; \<open>None\<close> is the nil channel.\<close>

type_synonym chan = nat

record InputChannelType =
  command :: Command
  response :: "chan option"

text \<open>
  \<open>store\<close> is the Go map, allocated when the store is built. Reading a missing key
  gives the zero value, the empty string.
\<close>

record KVStore =
  C :: chan
  store :: "string \<rightharpoonup> string"

definition map_get :: "(string \<rightharpoonup> string) \<Rightarrow> string \<Rightarrow> string" where
  "map_get m k = (case m k of None \<Rightarrow> [] | Some v \<Rightarrow> v)"

definition GetInternal :: "KVStore \<Rightarrow> string \<Rightarrow> Result" where
  "GetInternal s k = (let v = map_get (store s) k in Result_Kv \<lparr>Key = k, Value = v\<rparr>)"

definition SetInternal :: "KVStore \<Rightarrow> string \<Rightarrow> string \<Rightarrow> KVStore \<times> Result" where
  "SetInternal s k v = (s\<lparr>store := (store s)(k \<mapsto> v)\<rparr>, Result_Kv \<lparr>Key = k, Value = v\<rparr>)"

definition ClearInternal :: "KVStore \<Rightarrow> KVStore \<times> Result" where
  "ClearInternal s = (s\<lparr>store := Map.empty\<rparr>, Result_S)"

definition CasInternal :: "KVStore \<Rightarrow> string \<Rightarrow> string \<Rightarrow> string \<Rightarrow> KVStore \<times> Result" where
  "CasInternal s k v vn =
     (let vc = map_get (store s) k in
      if vc = v then (s\<lparr>store := (store s)(k \<mapsto> vn)\<rparr>, Result_Kv \<lparr>Key = k, Value = vn\<rparr>)
      else (s, Result_Kv \<lparr>Key = k, Value = vc\<rparr>))"

text \<open>
  \<open>HandleCommand\<close> returns the store and the result it offers on \<open>op.response\<close>. The
  offer is the non-blocking send of the \<open>select\<close>: with a nil channel, or with no
  receiver waiting, the \<open>default\<close> branch runs and the result is dropped. Reading a field
  through a nil argument pointer panics. Every operation outside the four cases takes
  the \<open>default\<close> branch of the switch: a blank result is offered and \<open>log.Fatalf\<close> ends the
  process, which the model returns as \<open>Fatal\<close>.
\<close>

definition HandleCommand :: "KVStore \<Rightarrow> InputChannelType \<Rightarrow> error + (KVStore \<times> Result)" where
  "HandleCommand s op =
     (let c = command op in
      case Operation c of
        GET \<Rightarrow>
          (case GetGet c of
             None \<Rightarrow> Inl Panic
           | Some k \<Rightarrow> Inr (s, GetInternal s k))
      | SET \<Rightarrow>
          (case GetSet c of
             None \<Rightarrow> Inl Panic
           | Some arg \<Rightarrow> Inr (SetInternal s (Key arg) (Value arg)))
      | CLEAR \<Rightarrow> Inr (ClearInternal s)
      | CAS \<Rightarrow>
          (case GetCas c of
             None \<Rightarrow> Inl Panic
           | Some arg \<Rightarrow>
               (case Kv arg of
                  None \<Rightarrow> Inl Panic
                | Some kv \<Rightarrow>
                    (case CasValue arg of
                       None \<Rightarrow> Inl Panic
                     | Some vn \<Rightarrow> Inr (CasInternal s (Key kv) (Value kv) vn))))
      | CONFIG_CHG \<Rightarrow> Inl Fatal)"

subsection \<open>Snapshots\<close>

text \<open>
  \<open>encoding/gob\<close> is the Go standard library. A blob is modelled by what it transmits:
  \<open>GobMap m\<close> is the stream \<open>Encode\<close> writes for the map \<open>m\<close> (its length, then its
  key/value pairs), \<open>NoBytes\<close> the empty byte slice. \<open>Decode\<close> into a map variable follows
  gob's map decoder: it allocates a map only when the destination is nil, and then
  stores each transmitted pair with \<open>SetMapIndex\<close>; it does not remove the entries the
  destination already holds. On the empty slice \<open>Decode\<close> returns \<open>io.EOF\<close> and leaves the
  destination alone. \<open>ApplySnapshot\<close> drops the error \<open>Decode\<close> returns.
\<close>

datatype blob = NoBytes | GobMap "string \<rightharpoonup> string"

definition gob_Encode :: "(string \<rightharpoonup> string) \<Rightarrow> blob" where
  "gob_Encode m = GobMap m"

fun gob_Decode :: "blob \<Rightarrow> (string \<rightharpoonup> string) \<Rightarrow> (string \<rightharpoonup> string)" where
  "gob_Decode NoBytes dst = dst"
| "gob_Decode (GobMap m) dst = dst ++ m"

definition ApplySnapshot :: "KVStore \<Rightarrow> blob \<Rightarrow> KVStore" where
  "ApplySnapshot s snapshot = s\<lparr>store := gob_Decode snapshot (store s)\<rparr>"

text \<open>
  \<open>HandleCommand\<close> called on a list of arguments in order, as the apply pump calls it;
  the run stops at the first panic or fatal exit.
\<close>

fun HandleCommands :: "KVStore \<Rightarrow> InputChannelType list \<Rightarrow> error + (KVStore \<times> Result list)" where
  "HandleCommands s [] = Inr (s, [])"
| "HandleCommands s (op # ops) =
     (case HandleCommand s op of
        Inl e \<Rightarrow> Inl e
      | Inr (s1, res) \<Rightarrow>
          (case HandleCommands s1 ops of
             Inl e \<Rightarrow> Inl e
           | Inr (s2, rs) \<Rightarrow> Inr (s2, res # rs)))"

section \<open>The Raft server (server/raft.go)\<close>

definition follower :: int where "follower = 1"
definition candidate :: int where "candidate = 2"
definition leader :: int where "leader = 3"

definition ELECTION_TIMEOUT_LOWER_BOUND :: int where "ELECTION_TIMEOUT_LOWER_BOUND = 1000"
definition ELECTION_TIMEOUT_UPPER_BOUND :: int where "ELECTION_TIMEOUT_UPPER_BOUND = 4000"
definition HEARTBEAT_TIMEOUT :: int where "HEARTBEAT_TIMEOUT = 500"
definition LOG_COMPACTION_LIMIT :: int where "LOG_COMPACTION_LIMIT = 30"

text \<open>\<open>time.Duration\<close> counts nanoseconds.\<close>

definition Millisecond :: int where "Millisecond = 1000000"

record Entry =
  Term :: int
  Index :: int
  Cmd :: "Command option"

text \<open>
  Modelled from the spec: the \<open>Persister\<close> type is not among the sources. It has two
  slots, each overwritten by its save and read back as last written. The \<open>raft_state\<close>
  slot holds the buffer \<open>persist\<close> saves, modelled by what the buffer transmits: the
  term, the vote, and the log when its encoding succeeded.
\<close>

record Persister =
  raft_state :: "(int \<times> string \<times> Entry list option) option"
  snapshot :: blob

definition SaveRaftState :: "Persister \<Rightarrow> int \<times> string \<times> Entry list option \<Rightarrow> Persister" where
  "SaveRaftState ps data = ps\<lparr>raft_state := Some data\<rparr>"

definition SaveSnapshot :: "Persister \<Rightarrow> blob \<Rightarrow> Persister" where
  "SaveSnapshot ps data = ps\<lparr>snapshot := data\<rparr>"

definition ReadSnapshot :: "Persister \<Rightarrow> blob" where
  "ReadSnapshot ps = snapshot ps"

text \<open>
  Modelled from the spec: the helpers \<open>restartTimer\<close> and \<open>stopTimer\<close> that raft.go
  calls are not among the sources. A timer is either stopped or armed to fire after a
  duration; restarting arms it with the new duration, stopping disarms it. The earlier
  version of the server that is among the sources has \<open>restartTimer\<close> as a method that
  does the same: it stops the timer, drains its channel and resets it to the duration.
\<close>

datatype timer = Stopped | Armed int

definition restartTimer :: "timer \<Rightarrow> int \<Rightarrow> timer" where
  "restartTimer t d = Armed d"

definition stopTimer :: "timer \<Rightarrow> timer" where
  "stopTimer t = Stopped"

text \<open>
  The server record. The field \<open>leader\<close> of the source is \<open>leaderID\<close> here (\<open>leader\<close> is
  also the role constant). Go maps read a missing key as the zero value.
\<close>

record Raft =
  me :: string
  leaderID :: string
  persister :: Persister
  state :: int
  quorumSize :: int
  currentTerm :: int
  votedFor :: string
  lastVoteTerm :: int
  log :: "Entry list"
  commitIndex :: int
  lastApplied :: int
  nextIndex :: "string \<rightharpoonup> int"
  matchIndex :: "string \<rightharpoonup> int"
  clientsResponse :: "int \<rightharpoonup> chan"
  electionTimer :: timer
  heartBeatTimer :: timer
  peers :: "string list"
  lastSnapshotLogEntry :: "Entry option"

text \<open>The indices of the first and of the last entry of a non-empty log.\<close>

definition first_index :: "Entry list \<Rightarrow> int" where
  "first_index l = Index (hd l)"

definition last_index :: "Entry list \<Rightarrow> int" where
  "last_index l = Index (last l)"

definition map_get0 :: "('k \<rightharpoonup> int) \<Rightarrow> 'k \<Rightarrow> int" where
  "map_get0 m k = (case m k of None \<Rightarrow> 0 | Some v \<Rightarrow> v)"

text \<open>
  \<open>persist\<close> gob-encodes \<open>currentTerm\<close>, \<open>votedFor\<close> and \<open>log\<close> into one buffer, drops
  the error each \<open>Encode\<close> returns, and saves the buffer. The two scalars always encode.
  \<open>encoding/gob\<close> refuses a value that holds an interface value whose concrete type was
  not registered with \<open>gob.Register\<close>; the \<open>oneof arg\<close> of a command is an interface
  field, and the sources register no type. So \<open>Encode(r.log)\<close> fails, and the buffer
  holds no log, as soon as one entry carries a command whose \<open>oneof\<close> is set.
\<close>

definition gob_encodable :: "Entry \<Rightarrow> bool" where
  "gob_encodable e = (case Cmd e of None \<Rightarrow> True | Some c \<Rightarrow> Arg c = NoArg)"

definition gob_Encode_log :: "Entry list \<Rightarrow> Entry list option" where
  "gob_Encode_log l = (if list_all gob_encodable l then Some l else None)"

definition persist :: "Raft \<Rightarrow> Raft" where
  "persist r =
     r\<lparr>persister :=
         SaveRaftState (persister r) (currentTerm r, votedFor r, gob_Encode_log (log r))\<rparr>"

definition getFirstLogIndex :: "Raft \<Rightarrow> error + int" where
  "getFirstLogIndex r = (case index_at (log r) 0 of Inl e \<Rightarrow> Inl e | Inr e0 \<Rightarrow> Inr (Index e0))"

definition getLastLogIndex :: "Raft \<Rightarrow> error + int" where
  "getLastLogIndex r =
     (case index_at (log r) (int (length (log r)) - 1) of Inl e \<Rightarrow> Inl e | Inr en \<Rightarrow> Inr (Index en))"

definition getLogLen :: "Raft \<Rightarrow> int" where
  "getLogLen r = int (length (log r))"

definition getLogEntry :: "Raft \<Rightarrow> int \<Rightarrow> error + (Entry option \<times> bool)" where
  "getLogEntry r index =
     (if getLogLen r = 0 then Inr (None, False)
      else
        case index_at (log r) 0 of
          Inl e \<Rightarrow> Inl e
        | Inr e0 \<Rightarrow>
            let firstIndex = Index e0 in
            (case getLastLogIndex r of
               Inl e \<Rightarrow> Inl e
             | Inr lastIndex \<Rightarrow>
                 if lastIndex < index \<or> firstIndex > index then Inr (None, False)
                 else
                   (case index_at (log r) (wrap64 (index - firstIndex)) of
                      Inl e \<Rightarrow> Inl e
                    | Inr en \<Rightarrow> Inr (Some en, True))))"

definition getEntryFrom :: "Raft \<Rightarrow> int \<Rightarrow> error + Entry list" where
  "getEntryFrom r index =
     (case index_at (log r) 0 of
        Inl e \<Rightarrow> Inl e
      | Inr e0 \<Rightarrow>
          let firstIndex = Index e0;
              sliceIndex = wrap64 (index - firstIndex)
          in slice_from (log r) sliceIndex)"

text \<open>
  \<open>Compaction\<close> first evaluates \<open>r.getFirstLogIndex()\<close> as an argument of its log line.
  In the condition \<open>&&\<close> binds tighter than \<open>||\<close>.
\<close>

definition Compaction :: "Raft \<Rightarrow> int \<Rightarrow> error + Raft" where
  "Compaction r index =
     (case getFirstLogIndex r of
        Inl e \<Rightarrow> Inl e
      | Inr firstIndex \<Rightarrow>
          if (case lastSnapshotLogEntry r of
                None \<Rightarrow> True
              | Some sn \<Rightarrow> index > Index sn \<and> index > firstIndex)
          then
            (case getLogEntry r index of
               Inl e \<Rightarrow> Inl e
             | Inr (en, ok) \<Rightarrow>
                 let r1 = r\<lparr>lastSnapshotLogEntry := en\<rparr> in
                 (case getEntryFrom r1 index of
                    Inl e \<Rightarrow> Inl e
                  | Inr l \<Rightarrow> Inr (persist (r1\<lparr>log := l\<rparr>))))
          else Inr r)"

text \<open>The condition under which \<open>Compaction\<close> cuts the log.\<close>

definition compaction_due :: "Raft \<Rightarrow> int \<Rightarrow> bool" where
  "compaction_due r i =
     (case lastSnapshotLogEntry r of
        None \<Rightarrow> True
      | Some sn \<Rightarrow> i > Index sn \<and> i > first_index (log r))"

text \<open>The body of the loop over the peers in \<open>leaderStatePrep\<close>.\<close>

definition leaderStatePrep_peer :: "int \<Rightarrow> string \<Rightarrow> Raft \<Rightarrow> Raft" where
  "leaderStatePrep_peer index p r =
     r\<lparr>nextIndex := (nextIndex r)(p \<mapsto> index), matchIndex := (matchIndex r)(p \<mapsto> 0)\<rparr>"

definition leaderStatePrep :: "Raft \<Rightarrow> error + Raft" where
  "leaderStatePrep r =
     (let r1 = r\<lparr>state := leader, leaderID := me r\<rparr>;
          r2 = r1\<lparr>heartBeatTimer := restartTimer (heartBeatTimer r1) (HEARTBEAT_TIMEOUT * Millisecond)\<rparr>;
          r3 = r2\<lparr>electionTimer := stopTimer (electionTimer r2)\<rparr>;
          r4 = r3\<lparr>nextIndex := Map.empty, matchIndex := Map.empty, clientsResponse := Map.empty\<rparr>
      in
      case getLastLogIndex r4 of
        Inl e \<Rightarrow> Inl e
      | Inr lastIndex \<Rightarrow>
          let index = wrap64 (lastIndex + 1) in
          Inr (fold (leaderStatePrep_peer index) (peers r4) r4))"

text \<open>
  The apply loop of \<open>ProcessLogs\<close>. Each round is recorded as the index the log line
  prints, the argument passed to \<open>HandleCommand\<close> and the result it offered.
  \<open>lastApplied++\<close> cannot overflow: it runs only when \<open>lastApplied\<close> is below
  \<open>commitIndex\<close>. A nil entry panics at \<open>entry.Index\<close> or at \<open>*entry.Cmd\<close>, a nil
  command at \<open>*entry.Cmd\<close>.
\<close>

type_synonym applied = "int \<times> InputChannelType \<times> Result"

function ProcessLogs_loop :: "Raft \<Rightarrow> KVStore \<Rightarrow> error + (Raft \<times> KVStore \<times> applied list)" where
  "ProcessLogs_loop r s =
     (if commitIndex r > lastApplied r then
        let r1 = r\<lparr>lastApplied := lastApplied r + 1\<rparr> in
        case getLogEntry r1 (lastApplied r1) of
          Inl e \<Rightarrow> Inl e
        | Inr (None, ok) \<Rightarrow> Inl Panic
        | Inr (Some entry, ok) \<Rightarrow>
            let responseChan = (if state r1 = leader then clientsResponse r1 (Index entry) else None) in
            (case Cmd entry of
               None \<Rightarrow> Inl Panic
             | Some c \<Rightarrow>
                 let op = \<lparr>command = c, response = responseChan\<rparr> in
                 (case HandleCommand s op of
                    Inl e \<Rightarrow> Inl e
                  | Inr (s1, res) \<Rightarrow>
                      let r2 = r1\<lparr>clientsResponse := (clientsResponse r1)(Index entry := None)\<rparr> in
                      (case ProcessLogs_loop r2 s1 of
                         Inl e \<Rightarrow> Inl e
                       | Inr (r3, s3, tr) \<Rightarrow> Inr (r3, s3, (Index entry, op, res) # tr))))
      else Inr (r, s, []))"
  by pat_completeness auto
termination
  by (relation "measure (\<lambda>(r, s). nat (commitIndex r - lastApplied r))") auto

declare ProcessLogs_loop.simps [simp del]

definition ProcessLogs :: "Raft \<Rightarrow> KVStore \<Rightarrow> error + (Raft \<times> KVStore \<times> applied list)" where
  "ProcessLogs r s =
     (case ProcessLogs_loop r s of
        Inl e \<Rightarrow> Inl e
      | Inr (r1, s1, tr) \<Rightarrow>
          if LOG_COMPACTION_LIMIT \<noteq> - 1 \<and> int (length (log r1)) \<ge> LOG_COMPACTION_LIMIT then
            let data = gob_Encode (store s1);
                r2 = r1\<lparr>persister := SaveSnapshot (persister r1) data\<rparr>
            in (case Compaction r2 (lastApplied r2) of
                  Inl e \<Rightarrow> Inl e
                | Inr r3 \<Rightarrow> Inr (r3, s1, tr))
          else Inr (r1, s1, tr))"

subsection \<open>Replication to one peer\<close>

record AppendEntriesArgs =
  Term_a :: int
  LeaderID_a :: string
  PrevLogIndex :: int
  PrevLogTerm :: int
  LeaderCommit :: int
  Entries :: "Entry list"

record AppendEntriesRet =
  Term_r :: int
  Success_r :: bool

record InstallSnapshotArgs =
  Term_s :: int
  LeaderID_s :: string
  LastLogEntry :: "Entry option"
  Data :: blob

record InstallSnapshotRet =
  Term_t :: int
  Success_t :: bool

text \<open>A Go \<open>error\<close> value is modelled by its message; \<open>None\<close> is nil.\<close>

record AppendResponse =
  ret :: "AppendEntriesRet option"
  err :: "string option"
  peer :: string
  matchIndex_r :: int
  requestTerm :: int

record InstallSnapshotResponse =
  ret_s :: "InstallSnapshotRet option"
  err_s :: "string option"
  peer_s :: string
  requestTerm_s :: int

text \<open>
  \<open>sendApeendEntriesTo\<close> builds one request and starts a goroutine that performs the
  call. The model returns the request the goroutine is started with.
\<close>

datatype outbound = Call_InstallSnapshot InstallSnapshotArgs | Call_AppendEntries AppendEntriesArgs

definition sendApeendEntriesTo :: "Raft \<Rightarrow> string \<Rightarrow> error + outbound" where
  "sendApeendEntriesTo r p =
     (case getLastLogIndex r of
        Inl e \<Rightarrow> Inl e
      | Inr lastIndex \<Rightarrow>
          (let isHeartBeat = (if lastIndex \<ge> map_get0 (nextIndex r) p then False else True);
               prevLogIndex = wrap64 (map_get0 (nextIndex r) p - 1);
               prev =
                 (if prevLogIndex \<noteq> 0 then
                    (case getLogEntry r prevLogIndex of
                       Inl e \<Rightarrow> Inl e
                     | Inr (en, ok) \<Rightarrow>
                         (if ok then
                            (case en of
                               None \<Rightarrow> Inl Panic
                             | Some entry \<Rightarrow> Inr (Inr (Term entry)))
                          else
                            (let installSnapshotArgs =
                                   \<lparr>Term_s = currentTerm r, LeaderID_s = me r,
                                    LastLogEntry = lastSnapshotLogEntry r,
                                    Data = ReadSnapshot (persister r)\<rparr>
                             in (case lastSnapshotLogEntry r of
                                   None \<Rightarrow> Inl Panic
                                 | Some sn \<Rightarrow> Inr (Inl (Call_InstallSnapshot installSnapshotArgs))))))
                  else Inr (Inr 0))
           in
             (case prev of
                Inl e \<Rightarrow> Inl e
              | Inr (Inl out) \<Rightarrow> Inr out
              | Inr (Inr prevLogTerm) \<Rightarrow>
                  (if isHeartBeat then
                     Inr (Call_AppendEntries
                           \<lparr>Term_a = currentTerm r, LeaderID_a = me r, PrevLogIndex = prevLogIndex,
                            PrevLogTerm = prevLogTerm, LeaderCommit = commitIndex r, Entries = []\<rparr>)
                   else
                     (case getLogEntry r (wrap64 (prevLogIndex + 1)) of
                        Inl e \<Rightarrow> Inl e
                      | Inr probe \<Rightarrow>
                          (case getEntryFrom r (wrap64 (prevLogIndex + 1)) of
                             Inl e \<Rightarrow> Inl e
                           | Inr entries \<Rightarrow>
                               Inr (Call_AppendEntries
                                     \<lparr>Term_a = currentTerm r, LeaderID_a = me r,
                                      PrevLogIndex = prevLogIndex, PrevLogTerm = prevLogTerm,
                                      LeaderCommit = commitIndex r, Entries = entries\<rparr>)))))))"

text \<open>
  The goroutine started for an AppendEntries request: it waits for the call to return
  \<open>(ret, err)\<close> and then builds the response it puts on \<open>appendResponseChan\<close>. The
  request \<open>args\<close> and the peer are captured when the goroutine starts; \<open>r.currentTerm\<close>
  is read through the receiver when the response is built, so the first argument is the
  server record as it stands when the call has returned.
\<close>

definition AppendEntries_goroutine ::
  "Raft \<Rightarrow> AppendEntriesArgs \<Rightarrow> string \<Rightarrow> AppendEntriesRet option \<Rightarrow> string option \<Rightarrow> AppendResponse" where
  "AppendEntries_goroutine r_now args p rt er =
     \<lparr>ret = rt, err = er, peer = p,
      matchIndex_r = wrap64 (PrevLogIndex args + int (length (Entries args))),
      requestTerm = currentTerm r_now\<rparr>"

definition InstallSnapshot_goroutine ::
  "Raft \<Rightarrow> InstallSnapshotArgs \<Rightarrow> string \<Rightarrow> InstallSnapshotRet option \<Rightarrow> string option \<Rightarrow> InstallSnapshotResponse" where
  "InstallSnapshot_goroutine r_now args p rt er =
     \<lparr>ret_s = rt, err_s = er, peer_s = p, requestTerm_s = currentTerm r_now\<rparr>"

subsection \<open>The election timeout\<close>

text \<open>
  \<open>math/rand\<close> is the Go standard library. \<open>Intn n\<close>, for the positive \<open>n\<close> used here,
  reduces a non-negative draw of the generator modulo \<open>n\<close>; the generator is modelled
  by the draw it delivers.
\<close>

definition Intn :: "nat \<Rightarrow> int \<Rightarrow> int" where
  "Intn draw n = int draw mod n"

definition DurationMax :: int where "DurationMax = 4000"
definition DurationMin :: int where "DurationMin = 1000"

definition randomDuration :: "nat \<Rightarrow> int" where
  "randomDuration draw = (Intn draw (DurationMax - DurationMin) + DurationMin) * Millisecond"

section \<open>Well-formed logs\<close>

text \<open>
  The log invariants of the data model: the log is not empty and its indices form a
  contiguous run. A Go slice has fewer than \<open>2 ^ 63\<close> elements.
\<close>

fun contiguous_from :: "int \<Rightarrow> Entry list \<Rightarrow> bool" where
  "contiguous_from i [] = True"
| "contiguous_from i (e # es) = (Index e = i \<and> contiguous_from (i + 1) es)"

definition log_wf :: "Entry list \<Rightarrow> bool" where
  "log_wf l \<longleftrightarrow> l \<noteq> [] \<and> contiguous_from (first_index l) l \<and> int (length l) < 2 ^ 63"

text \<open>The entry a well-formed log holds at index \<open>i\<close>.\<close>

definition entry_at :: "Entry list \<Rightarrow> int \<Rightarrow> Entry" where
  "entry_at l i = l ! nat (i - first_index l)"

text \<open>
  A command \<open>HandleCommand\<close> has a case for, with the argument that case reads: what
  the Get, Set, Clear and CAS front ends build.
\<close>

definition well_formed_cmd :: "Command \<Rightarrow> bool" where
  "well_formed_cmd c =
     (case Operation c of
        GET \<Rightarrow> GetGet c \<noteq> None
      | SET \<Rightarrow> GetSet c \<noteq> None
      | CLEAR \<Rightarrow> True
      | CAS \<Rightarrow> (case GetCas c of None \<Rightarrow> False | Some arg \<Rightarrow> Kv arg \<noteq> None \<and> CasValue arg \<noteq> None)
      | CONFIG_CHG \<Rightarrow> False)"

fun entries_ok :: "Entry list \<Rightarrow> bool" where
  "entries_ok [] = True"
| "entries_ok (e # es) =
     ((case Cmd e of None \<Rightarrow> False | Some c \<Rightarrow> well_formed_cmd c) \<and> entries_ok es)"

text \<open>The committed entries not yet applied: those at \<open>lastApplied + 1 .. commitIndex\<close>.\<close>

definition pending :: "Raft \<Rightarrow> Entry list" where
  "pending r =
     take (nat (commitIndex r - lastApplied r))
       (drop (nat (lastApplied r + 1 - first_index (log r))) (log r))"

section \<open>Example states\<close>

definition cmd_set_a1 :: Command where
  "cmd_set_a1 = \<lparr>Operation = SET, Arg = Command_Set (Some \<lparr>Key = ''a'', Value = ''1''\<rparr>)\<rparr>"

definition cmd_get_a :: Command where
  "cmd_get_a = \<lparr>Operation = GET, Arg = Command_Get (Some ''a'')\<rparr>"

text \<open>
  A leader in term 2 whose log was compacted up to index 3: the sentinel at index 3,
  then the entries 4 and 5, both committed and not yet applied.
\<close>

definition ex_log :: "Entry list" where
  "ex_log =
     [\<lparr>Term = 1, Index = 3, Cmd = None\<rparr>,
      \<lparr>Term = 1, Index = 4, Cmd = Some cmd_set_a1\<rparr>,
      \<lparr>Term = 2, Index = 5, Cmd = Some cmd_get_a\<rparr>]"

definition ex_raft :: Raft where
  "ex_raft =
     \<lparr>me = ''s0'', leaderID = ''s0'',
      persister = \<lparr>raft_state = None, snapshot = GobMap Map.empty\<rparr>,
      state = leader, quorumSize = 2, currentTerm = 2, votedFor = ''s0'', lastVoteTerm = 2,
      log = ex_log, commitIndex = 5, lastApplied = 3,
      nextIndex = [''s1'' \<mapsto> 6, ''s2'' \<mapsto> 4, ''s3'' \<mapsto> 2],
      matchIndex = [''s1'' \<mapsto> 5, ''s2'' \<mapsto> 0, ''s3'' \<mapsto> 0],
      clientsResponse = [4 \<mapsto> 11, 5 \<mapsto> 12],
      electionTimer = Stopped, heartBeatTimer = Armed (500 * 1000000),
      peers = [''s1'', ''s2'', ''s3''],
      lastSnapshotLogEntry = Some \<lparr>Term = 1, Index = 3, Cmd = None\<rparr>\<rparr>"

definition kv_xB :: KVStore where
  "kv_xB = \<lparr>C = 0, store = [''x'' \<mapsto> ''B'']\<rparr>"

definition kv_a1 :: KVStore where
  "kv_a1 = \<lparr>C = 0, store = [''a'' \<mapsto> ''1'']\<rparr>"

text \<open>The example leader with a committed ChangeConfiguration entry at index 4.\<close>

definition cmd_config :: Command where
  "cmd_config =
     \<lparr>Operation = CONFIG_CHG,
      Arg = Command_Servers (Some \<lparr>CurrList = ''s1,s2'', NewList = ''s1,s2,s3''\<rparr>)\<rparr>"

definition ex_raft_config :: Raft where
  "ex_raft_config =
     ex_raft\<lparr>log := [\<lparr>Term = 1, Index = 3, Cmd = None\<rparr>,
                       \<lparr>Term = 2, Index = 4, Cmd = Some cmd_config\<rparr>],
             commitIndex := 4\<rparr>"

text \<open>
  The example leader with a committed CompareAndSet entry at index 4 whose argument has
  no key/value pair: what the CAS front end builds from a request that leaves \<open>kv\<close>
  unset.
\<close>

definition cmd_cas_nil :: Command where
  "cmd_cas_nil =
     \<lparr>Operation = CAS, Arg = Command_Cas (Some \<lparr>Kv = None, CasValue = Some ''v''\<rparr>)\<rparr>"

definition ex_raft_cas_nil :: Raft where
  "ex_raft_cas_nil =
     ex_raft\<lparr>log := [\<lparr>Term = 1, Index = 3, Cmd = None\<rparr>,
                       \<lparr>Term = 2, Index = 4, Cmd = Some cmd_cas_nil\<rparr>],
             commitIndex := 4\<rparr>"

text \<open>
  The request the example leader builds for the peer \<open>s2\<close>, and the same server after
  it has seen term 5 and stepped down while that request is in flight.
\<close>

definition ex_args :: AppendEntriesArgs where
  "ex_args =
     \<lparr>Term_a = 2, LeaderID_a = ''s0'', PrevLogIndex = 3, PrevLogTerm = 1, LeaderCommit = 5,
      Entries = [\<lparr>Term = 1, Index = 4, Cmd = Some cmd_set_a1\<rparr>,
                 \<lparr>Term = 2, Index = 5, Cmd = Some cmd_get_a\<rparr>]\<rparr>"

definition ex_raft_later :: Raft where
  "ex_raft_later = ex_raft\<lparr>state := follower, currentTerm := 5, leaderID := ''s1''\<rparr>"

section \<open>Properties of the machine integers\<close>

lemma wrap64_int64: "is_int64 x \<Longrightarrow> wrap64 x = x"
  by (simp add: wrap64_def is_int64_def)

lemma is_int64_wrap64: "is_int64 (wrap64 x)"
proof -
  have "0 \<le> (x + 2 ^ 63) mod 2 ^ 64" by simp
  moreover have "(x + 2 ^ 63) mod 2 ^ 64 < 2 ^ 64" by (rule pos_mod_bound) simp
  ultimately show ?thesis by (simp add: wrap64_def is_int64_def)
qed

section \<open>Properties of the state machine\<close>

text \<open>
  C1. A committed ChangeConfiguration command is not accepted as a no-op: the switch of
  \<open>HandleCommand\<close> has no case for \<open>CONFIG_CHG\<close>, so the command takes the default
  branch and the call ends in \<open>log.Fatalf\<close>, for every store, argument and reply
  channel.
\<close>

theorem HandleCommand_config_chg_fatal:
  "HandleCommand s \<lparr>command = \<lparr>Operation = CONFIG_CHG, Arg = a\<rparr>, response = ch\<rparr> = Inl Fatal"
  by (simp add: HandleCommand_def)

lemma map_get_upd_same: "map_get (m(k \<mapsto> v)) k = v"
  by (simp add: map_get_def)

lemma CasInternal_hit:
  "map_get (store s) k = v \<Longrightarrow>
   CasInternal s k v vn = (s\<lparr>store := (store s)(k \<mapsto> vn)\<rparr>, Result_Kv \<lparr>Key = k, Value = vn\<rparr>)"
  by (simp add: CasInternal_def)

lemma CasInternal_miss:
  "map_get (store s) k \<noteq> v \<Longrightarrow>
   CasInternal s k v vn = (s, Result_Kv \<lparr>Key = k, Value = map_get (store s) k\<rparr>)"
  by (simp add: CasInternal_def)

text \<open>
  C3, as amended. If the current value of \<open>k\<close> equals \<open>expected\<close>, \<open>CasInternal\<close>
  assigns \<open>new\<close> and replies \<open>(k, new)\<close>; otherwise it leaves the store unchanged and
  replies \<open>(k, current)\<close>. The returned value equals \<open>new\<close> exactly when the current
  value equals \<open>expected\<close> or already equals \<open>new\<close>; so a performed assignment is always
  answered with \<open>new\<close>, but an answer \<open>new\<close> does not show that the assignment was
  performed.
\<close>

theorem CasInternal_spec:
  "(map_get (store s) k = v \<longrightarrow>
      CasInternal s k v vn = (s\<lparr>store := (store s)(k \<mapsto> vn)\<rparr>, Result_Kv \<lparr>Key = k, Value = vn\<rparr>)) \<and>
   (map_get (store s) k \<noteq> v \<longrightarrow>
      CasInternal s k v vn = (s, Result_Kv \<lparr>Key = k, Value = map_get (store s) k\<rparr>)) \<and>
   (result_value (snd (CasInternal s k v vn)) = vn \<longleftrightarrow>
      map_get (store s) k = v \<or> map_get (store s) k = vn)"
  by (auto simp: CasInternal_def result_value_def Let_def)

text \<open>
  C3, witness: on the store \<open>x \<mapsto> B\<close>, a CAS expecting \<open>B\<close> assigns, and a CAS expecting
  \<open>A\<close> does not.
\<close>

theorem CasInternal_spec_witness:
  "map_get (store kv_xB) ''x'' = ''B'' \<and>
   CasInternal kv_xB ''x'' ''B'' ''C'' =
     (kv_xB\<lparr>store := (store kv_xB)(''x'' \<mapsto> ''C'')\<rparr>, Result_Kv \<lparr>Key = ''x'', Value = ''C''\<rparr>) \<and>
   map_get (store kv_xB) ''x'' \<noteq> ''A'' \<and>
   CasInternal kv_xB ''x'' ''A'' ''C'' = (kv_xB, Result_Kv \<lparr>Key = ''x'', Value = ''B''\<rparr>)"
  using CasInternal_spec [of kv_xB "''x''" "''B''" "''C''"]
        CasInternal_spec [of kv_xB "''x''" "''A''" "''C''"]
  by (simp add: kv_xB_def map_get_def)

text \<open>
  C3, counterexample to the claim as stated: on the store \<open>x \<mapsto> B\<close>, the call
  CompareAndSet((x, A), B) returns the value \<open>B\<close>, which equals \<open>new\<close>, although the
  current value differs from \<open>expected\<close> and nothing is assigned.
\<close>

theorem CasInternal_returns_new_without_assigning:
  "result_value (snd (CasInternal kv_xB ''x'' ''A'' ''B'')) = ''B'' \<and>
   map_get (store kv_xB) ''x'' \<noteq> ''A'' \<and>
   fst (CasInternal kv_xB ''x'' ''A'' ''B'') = kv_xB"
  by (simp add: CasInternal_def kv_xB_def result_value_def map_get_def Let_def)

subsection \<open>Snapshots\<close>

lemma ApplySnapshot_overlay: "store (ApplySnapshot s (gob_Encode m)) = store s ++ m"
  by (simp add: ApplySnapshot_def gob_Encode_def)

lemma ApplySnapshot_fresh:
  "store s = Map.empty \<Longrightarrow> store (ApplySnapshot s (gob_Encode m)) = m"
  by (simp add: ApplySnapshot_def gob_Encode_def)

text \<open>
  The round trip into a fresh store: restoring the snapshot of a store reached by any
  command sequence into an empty store gives the same mapping.
\<close>

lemma snapshot_round_trip_fresh:
  "HandleCommands s0 ops = Inr (s, rs) \<Longrightarrow> store fresh = Map.empty \<Longrightarrow>
   store (ApplySnapshot fresh (gob_Encode (store s))) = store s"
  by (simp add: ApplySnapshot_fresh)

text \<open>
  C2. \<open>ApplySnapshot\<close> does not discard prior contents: restoring the snapshot of the
  mapping \<open>b \<mapsto> 2\<close> into a store that holds \<open>a \<mapsto> 1\<close> leaves the key \<open>a\<close> in place, so
  the store differs from the mapping the snapshot was taken of.
\<close>

theorem ApplySnapshot_keeps_prior_keys:
  "store (ApplySnapshot kv_a1 (gob_Encode [''b'' \<mapsto> ''2''])) ''a'' = Some ''1'' \<and>
   [''b'' \<mapsto> ''2''] ''a'' = (None :: string option) \<and>
   store (ApplySnapshot kv_a1 (gob_Encode [''b'' \<mapsto> ''2''])) \<noteq> [''b'' \<mapsto> ''2'']"
  by (auto simp: ApplySnapshot_def gob_Encode_def kv_a1_def map_add_def fun_eq_iff)

section \<open>Properties of the election timeout\<close>

lemma randomDuration_eq: "randomDuration draw = (int draw mod 3000 + 1000) * 1000000"
  by (simp add: randomDuration_def Intn_def DurationMax_def DurationMin_def Millisecond_def)

lemma randomDuration_lower: "1000 * Millisecond \<le> randomDuration draw"
proof -
  have "0 \<le> int draw mod 3000" by simp
  then show ?thesis by (simp add: randomDuration_eq Millisecond_def)
qed

lemma randomDuration_upper: "randomDuration draw \<le> 3999 * Millisecond"
proof -
  have "int draw mod 3000 < 3000" by (rule pos_mod_bound) simp
  then have "int draw mod 3000 \<le> 2999" by linarith
  then show ?thesis by (simp add: randomDuration_eq Millisecond_def)
qed

lemma randomDuration_onto:
  assumes "1000 \<le> ms" and "ms \<le> 3999"
  shows "\<exists>d. randomDuration d = ms * Millisecond"
proof -
  have "int (nat (ms - 1000)) mod 3000 = ms - 1000" using assms by simp
  then have "randomDuration (nat (ms - 1000)) = ms * Millisecond"
    by (simp add: randomDuration_def Intn_def DurationMax_def DurationMin_def)
  then show ?thesis by blast
qed

text \<open>
  C9, as amended. Every duration \<open>randomDuration\<close> returns is a whole number of
  milliseconds from 1000 ms to 3999 ms, so it is never 4000 ms; and every whole number
  of milliseconds from 1000 to 3999 is returned for some draw.
\<close>

theorem randomDuration_range:
  "1000 * Millisecond \<le> randomDuration draw \<and> randomDuration draw \<le> 3999 * Millisecond \<and>
   randomDuration draw \<noteq> 4000 * Millisecond \<and>
   (\<exists>k. randomDuration draw = k * Millisecond) \<and>
   (1000 \<le> ms \<and> ms \<le> 3999 \<longrightarrow> (\<exists>d. randomDuration d = ms * Millisecond))"
proof -
  have ne: "randomDuration draw \<noteq> 4000 * Millisecond"
    using randomDuration_upper [of draw] by (simp add: Millisecond_def)
  have k: "\<exists>k. randomDuration draw = k * Millisecond"
    by (simp add: randomDuration_def)
  from ne k randomDuration_lower randomDuration_upper randomDuration_onto show ?thesis
    by blast
qed

text \<open>C9, witness: the draw 7 gives 1007 ms, and 2500 ms is reached.\<close>

theorem randomDuration_range_witness:
  "(1000::int) \<le> 2500 \<and> (2500::int) \<le> 3999 \<and>
   (\<exists>d. randomDuration d = 2500 * Millisecond) \<and>
   randomDuration 7 = 1007 * Millisecond"
  using randomDuration_range [of 7 2500]
  by (simp add: randomDuration_eq Millisecond_def)

text \<open>
  C9, counterexample to the claim as stated: no draw makes \<open>randomDuration\<close> return
  4000 ms.
\<close>

theorem randomDuration_never_4000:
  "\<not> (\<exists>draw. randomDuration draw = 4000 * Millisecond)"
proof
  assume "\<exists>draw. randomDuration draw = 4000 * Millisecond"
  then obtain draw where "randomDuration draw = 4000 * Millisecond" ..
  with randomDuration_upper [of draw] show False by (simp add: Millisecond_def)
qed

section \<open>Properties of the log and of compaction\<close>

lemma wrap64_id: "- (2 ^ 63) \<le> x \<Longrightarrow> x < 2 ^ 63 \<Longrightarrow> wrap64 x = x"
  by (simp add: wrap64_def)

lemma index_at_0: "l \<noteq> [] \<Longrightarrow> index_at l 0 = Inr (hd l)"
  by (cases l) (simp_all add: index_at_def)

lemma index_at_in: "0 \<le> i \<Longrightarrow> i < int (length l) \<Longrightarrow> index_at l i = Inr (l ! nat i)"
  by (simp add: index_at_def)

lemma index_at_last: "l \<noteq> [] \<Longrightarrow> index_at l (int (length l) - 1) = Inr (last l)"
  by (cases l rule: rev_cases) (simp_all add: index_at_def nat_diff_distrib' )

lemma getFirstLogIndex_nonempty: "log r \<noteq> [] \<Longrightarrow> getFirstLogIndex r = Inr (first_index (log r))"
  by (simp add: getFirstLogIndex_def index_at_0 first_index_def)

lemma getLastLogIndex_nonempty: "log r \<noteq> [] \<Longrightarrow> getLastLogIndex r = Inr (last_index (log r))"
  by (simp add: getLastLogIndex_def index_at_last last_index_def)

lemma getLastLogIndex_empty: "log r = [] \<Longrightarrow> getLastLogIndex r = Inl Panic"
  by (simp add: getLastLogIndex_def index_at_def)

lemma contiguous_nth:
  "contiguous_from f l \<Longrightarrow> k < length l \<Longrightarrow> Index (l ! k) = f + int k"
proof (induction l arbitrary: f k)
  case Nil
  then show ?case by simp
next
  case (Cons e es)
  then show ?case by (cases k) auto
qed

lemma contiguous_drop:
  "contiguous_from f l \<Longrightarrow> k \<le> length l \<Longrightarrow> contiguous_from (f + int k) (drop k l)"
proof (induction l arbitrary: f k)
  case Nil
  then show ?case by simp
next
  case (Cons e es)
  show ?case
  proof (cases k)
    case 0
    with Cons.prems show ?thesis by simp
  next
    case (Suc n)
    with Cons.prems have "contiguous_from (f + 1 + int n) (drop n es)"
      by (intro Cons.IH) auto
    with Suc show ?thesis by (simp add: algebra_simps)
  qed
qed

lemma log_wf_last: "log_wf l \<Longrightarrow> last_index l = first_index l + int (length l) - 1"
proof -
  assume wf: "log_wf l"
  then have ne: "l \<noteq> []" and c: "contiguous_from (first_index l) l" by (simp_all add: log_wf_def)
  from ne have "last l = l ! (length l - 1)" by (simp add: last_conv_nth)
  moreover from ne have "length l - 1 < length l" by simp
  ultimately have "Index (last l) = first_index l + int (length l - 1)"
    using contiguous_nth [OF c] by simp
  with ne show ?thesis by (simp add: last_index_def of_nat_diff Suc_leI)
qed

lemma getLogEntry_empty: "log r = [] \<Longrightarrow> getLogEntry r i = Inr (None, False)"
  by (simp add: getLogEntry_def getLogLen_def)

lemma getLogEntry_nonempty:
  "log r \<noteq> [] \<Longrightarrow>
   getLogEntry r i =
     (if last_index (log r) < i \<or> first_index (log r) > i then Inr (None, False)
      else case index_at (log r) (wrap64 (i - first_index (log r))) of
             Inl e \<Rightarrow> Inl e
           | Inr en \<Rightarrow> Inr (Some en, True))"
  by (simp add: getLogEntry_def getLogLen_def index_at_0 getLastLogIndex_nonempty
      first_index_def Let_def)

lemma getLogEntry_outside:
  "log r \<noteq> [] \<Longrightarrow> i < first_index (log r) \<or> last_index (log r) < i \<Longrightarrow>
   getLogEntry r i = Inr (None, False)"
  by (auto simp: getLogEntry_nonempty)

lemma getLogEntry_inside:
  assumes wf: "log_wf (log r)"
    and lo: "first_index (log r) \<le> i" and hi: "i \<le> last_index (log r)"
  shows "getLogEntry r i = Inr (Some (entry_at (log r) i), True)"
proof -
  from wf have ne: "log r \<noteq> []" and len: "int (length (log r)) < 2 ^ 63"
    by (simp_all add: log_wf_def)
  from hi log_wf_last [OF wf] have up: "i - first_index (log r) < int (length (log r))" by simp
  from lo have low: "0 \<le> i - first_index (log r)" by simp
  from up low len have w: "wrap64 (i - first_index (log r)) = i - first_index (log r)"
    by (intro wrap64_id) auto
  from ne lo hi w up low show ?thesis
    by (simp add: getLogEntry_nonempty index_at_in entry_at_def)
qed

lemma entry_at_Index:
  assumes wf: "log_wf (log r)"
    and lo: "first_index (log r) \<le> i" and hi: "i \<le> last_index (log r)"
  shows "Index (entry_at (log r) i) = i"
proof -
  from wf have c: "contiguous_from (first_index (log r)) (log r)" by (simp add: log_wf_def)
  from hi log_wf_last [OF wf] lo have "nat (i - first_index (log r)) < length (log r)" by simp
  from contiguous_nth [OF c this] lo show ?thesis by (simp add: entry_at_def)
qed

text \<open>
  C10. \<open>getLogEntry\<close> returns \<open>ok = false\<close>, with no out-of-range access, whenever the
  log is empty or the index lies before the first or after the last entry's index; and
  on a non-empty log with contiguous indices it returns \<open>ok = true\<close> with the entry whose
  \<open>Index\<close> field is \<open>i\<close> for every \<open>i\<close> from the first to the last index.
\<close>

theorem getLogEntry_total:
  "(log r = [] \<or> i < first_index (log r) \<or> last_index (log r) < i \<longrightarrow>
      getLogEntry r i = Inr (None, False)) \<and>
   (log_wf (log r) \<and> first_index (log r) \<le> i \<and> i \<le> last_index (log r) \<longrightarrow>
      getLogEntry r i = Inr (Some (entry_at (log r) i), True) \<and> Index (entry_at (log r) i) = i)"
  using getLogEntry_empty getLogEntry_outside getLogEntry_inside entry_at_Index by blast

lemma ex_log_wf: "log_wf ex_log"
  by (simp add: log_wf_def ex_log_def first_index_def)

lemma ex_log_bounds: "first_index ex_log = 3 \<and> last_index ex_log = 5"
  by (simp add: ex_log_def first_index_def last_index_def)

text \<open>C10, witness: on the example log (indices 3 to 5), index 9 is refused and index 4 found.\<close>

theorem getLogEntry_total_witness:
  "last_index (log ex_raft) < 9 \<and> getLogEntry ex_raft 9 = Inr (None, False) \<and>
   log_wf (log ex_raft) \<and> first_index (log ex_raft) \<le> 4 \<and> 4 \<le> last_index (log ex_raft) \<and>
   getLogEntry ex_raft 4 = Inr (Some \<lparr>Term = 1, Index = 4, Cmd = Some cmd_set_a1\<rparr>, True)"
  using getLogEntry_total [of ex_raft 9] getLogEntry_total [of ex_raft 4]
  by (simp add: ex_raft_def ex_log_wf ex_log_bounds) (simp add: ex_log_def entry_at_def first_index_def)

lemma getEntryFrom_inside:
  assumes wf: "log_wf (log r)"
    and lo: "first_index (log r) \<le> i" and hi: "i \<le> last_index (log r) + 1"
  shows "getEntryFrom r i = Inr (drop (nat (i - first_index (log r))) (log r))"
proof -
  from wf have ne: "log r \<noteq> []" and len: "int (length (log r)) < 2 ^ 63"
    by (simp_all add: log_wf_def)
  from hi log_wf_last [OF wf] have up: "i - first_index (log r) \<le> int (length (log r))" by simp
  from lo have low: "0 \<le> i - first_index (log r)" by simp
  from up low len have w: "wrap64 (i - first_index (log r)) = i - first_index (log r)"
    by (intro wrap64_id) auto
  from ne w up low show ?thesis
    by (simp add: getEntryFrom_def index_at_0 first_index_def [symmetric] slice_from_def Let_def)
qed

lemma log_wf_drop:
  assumes wf: "log_wf l" and k: "k < length l"
  shows "log_wf (drop k l) \<and> first_index (drop k l) = first_index l + int k \<and>
         hd (drop k l) = l ! k \<and> last_index (drop k l) = last_index l"
proof -
  from wf have c: "contiguous_from (first_index l) l" and len: "int (length l) < 2 ^ 63"
    by (simp_all add: log_wf_def)
  from k have ne: "drop k l \<noteq> []" by simp
  from k have h: "hd (drop k l) = l ! k" by (simp add: hd_drop_conv_nth)
  with contiguous_nth [OF c k] have f: "first_index (drop k l) = first_index l + int k"
    by (simp add: first_index_def)
  from contiguous_drop [OF c, of k] k f have "contiguous_from (first_index (drop k l)) (drop k l)"
    by simp
  with ne len have w: "log_wf (drop k l)" by (simp add: log_wf_def)
  from k have "last_index (drop k l) = last_index l" by (simp add: last_index_def)
  with w f h show ?thesis by simp
qed

lemma contiguous_lower:
  "contiguous_from f l \<Longrightarrow> e \<in> set l \<Longrightarrow> f \<le> Index e"
  by (induction l arbitrary: f) force+

lemma Compaction_skip:
  "log r \<noteq> [] \<Longrightarrow> \<not> compaction_due r i \<Longrightarrow> Compaction r i = Inr r"
  by (simp add: Compaction_def getFirstLogIndex_nonempty compaction_due_def)

lemma Compaction_cut:
  assumes wf: "log_wf (log r)" and due: "compaction_due r i"
    and lo: "first_index (log r) \<le> i" and hi: "i \<le> last_index (log r)"
  shows "Compaction r i =
           Inr (persist (r\<lparr>lastSnapshotLogEntry := Some (entry_at (log r) i),
                           log := drop (nat (i - first_index (log r))) (log r)\<rparr>))"
proof -
  from wf have ne: "log r \<noteq> []" by (simp add: log_wf_def)
  have g: "getLogEntry r i = Inr (Some (entry_at (log r) i), True)"
    using wf lo hi by (rule getLogEntry_inside)
  have "getEntryFrom (r\<lparr>lastSnapshotLogEntry := Some (entry_at (log r) i)\<rparr>) i =
          Inr (drop (nat (i - first_index (log r))) (log r))"
    using getEntryFrom_inside [of "r\<lparr>lastSnapshotLogEntry := Some (entry_at (log r) i)\<rparr>" i] wf lo hi
    by simp
  with ne due g show ?thesis
    by (simp add: Compaction_def getFirstLogIndex_nonempty compaction_due_def Let_def)
qed

text \<open>
  C5, as amended. After \<open>Compaction S\<close> on a server whose well-formed log contains an
  entry at index \<open>S\<close>, with \<open>S\<close> greater than the first log index and than the snapshot
  pointer's index (or with no snapshot pointer yet), the log is the suffix that starts
  at index \<open>S\<close>: its first entry is the entry that was at index \<open>S\<close>, unchanged (same
  term, index \<open>S\<close> and the command it had), no entry with an earlier index is retained,
  and the snapshot pointer equals that first entry.
\<close>

theorem Compaction_sentinel:
  assumes wf: "log_wf (log r)"
    and lo: "first_index (log r) < S" and hi: "S \<le> last_index (log r)"
    and sn: "case lastSnapshotLogEntry r of None \<Rightarrow> True | Some sn \<Rightarrow> Index sn < S"
  shows "\<exists>r'. Compaction r S = Inr r' \<and>
           log r' = drop (nat (S - first_index (log r))) (log r) \<and>
           log_wf (log r') \<and>
           hd (log r') = entry_at (log r) S \<and>
           Index (hd (log r')) = S \<and>
           Cmd (hd (log r')) = Cmd (entry_at (log r) S) \<and>
           (\<forall>e \<in> set (log r'). S \<le> Index e) \<and>
           lastSnapshotLogEntry r' = Some (hd (log r'))"
proof -
  let ?k = "nat (S - first_index (log r))"
  let ?r' = "persist (r\<lparr>lastSnapshotLogEntry := Some (entry_at (log r) S), log := drop ?k (log r)\<rparr>)"
  from sn lo have due: "compaction_due r S"
    by (simp add: compaction_due_def split: option.splits)
  from lo have lo': "first_index (log r) \<le> S" by simp
  have c: "Compaction r S = Inr ?r'" using wf due lo' hi by (rule Compaction_cut)
  have l: "log ?r' = drop ?k (log r)" by (simp add: persist_def)
  from hi log_wf_last [OF wf] lo have k: "?k < length (log r)" by simp
  note d = log_wf_drop [OF wf k]
  from d lo have f: "first_index (drop ?k (log r)) = S" by simp
  from d have h: "hd (drop ?k (log r)) = entry_at (log r) S" by (simp add: entry_at_def)
  have ix: "Index (entry_at (log r) S) = S" using wf lo' hi by (rule entry_at_Index)
  from d have "log_wf (drop ?k (log r))" by blast
  then have "contiguous_from (first_index (drop ?k (log r))) (drop ?k (log r))"
    unfolding log_wf_def by blast
  with f have "contiguous_from S (drop ?k (log r))" by simp
  then have "\<forall>e \<in> set (drop ?k (log r)). S \<le> Index e"
    by (auto dest: contiguous_lower)
  with c l d h ix show ?thesis
    by (simp add: persist_def)
qed

text \<open>
  What \<open>Compaction\<close> leaves in the persister on the example server: the term and the
  vote, and no log, since the retained entries carry commands whose \<open>oneof\<close> is set.
\<close>

lemma Compaction_example_persists_no_log:
  "(case Compaction ex_raft 4 of Inl e \<Rightarrow> None | Inr r' \<Rightarrow> raft_state (persister r')) =
     Some (2, ''s0'', None)"
  by (simp add: ex_raft_def ex_log_def Compaction_def getFirstLogIndex_def getLogEntry_def
      getLogLen_def getLastLogIndex_def getEntryFrom_def index_at_def slice_from_def wrap64_def
      persist_def SaveRaftState_def gob_Encode_log_def gob_encodable_def cmd_set_a1_def
      cmd_get_a_def Let_def)

text \<open>
  C6. Compaction is idempotent: on a server with a well-formed log, for \<open>j \<le> i\<close> with
  \<open>i\<close> an index the log holds (not beyond the last index, and not before the first one
  when no snapshot was taken yet), \<open>Compaction i\<close> returns a state on which
  \<open>Compaction j\<close> changes nothing: the log, the snapshot pointer and the persisted state
  are those \<open>Compaction i\<close> left.
\<close>

theorem Compaction_idempotent:
  assumes wf: "log_wf (log r)"
    and ji: "j \<le> i" and hi: "i \<le> last_index (log r)"
    and lo: "lastSnapshotLogEntry r = None \<longrightarrow> first_index (log r) \<le> i"
  shows "\<exists>r1. Compaction r i = Inr r1 \<and> Compaction r1 j = Inr r1"
proof (cases "compaction_due r i")
  case False
  from wf have ne: "log r \<noteq> []" by (simp add: log_wf_def)
  from False ji have "\<not> compaction_due r j"
    by (auto simp: compaction_due_def split: option.splits)
  with False ne show ?thesis by (simp add: Compaction_skip)
next
  case True
  let ?k = "nat (i - first_index (log r))"
  let ?r1 = "persist (r\<lparr>lastSnapshotLogEntry := Some (entry_at (log r) i), log := drop ?k (log r)\<rparr>)"
  from True lo have lo': "first_index (log r) \<le> i"
    by (auto simp: compaction_due_def split: option.splits)
  have c: "Compaction r i = Inr ?r1" using wf True lo' hi by (rule Compaction_cut)
  from hi log_wf_last [OF wf] lo' have k: "?k < length (log r)" by simp
  then have ne1: "log ?r1 \<noteq> []" by (simp add: persist_def)
  have ix: "Index (entry_at (log r) i) = i" using wf lo' hi by (rule entry_at_Index)
  with ji have "\<not> compaction_due ?r1 j"
    by (simp add: compaction_due_def persist_def)
  with ne1 have "Compaction ?r1 j = Inr ?r1" by (rule Compaction_skip)
  with c show ?thesis by simp
qed

text \<open>C5, witness: compacting the example server up to index 4.\<close>

theorem Compaction_sentinel_witness:
  "log_wf (log ex_raft) \<and> first_index (log ex_raft) < 4 \<and> 4 \<le> last_index (log ex_raft) \<and>
   (\<exists>r'. Compaction ex_raft 4 = Inr r' \<and>
      hd (log r') = \<lparr>Term = 1, Index = 4, Cmd = Some cmd_set_a1\<rparr> \<and>
      lastSnapshotLogEntry r' = Some (hd (log r')))"
  using Compaction_sentinel [of ex_raft 4]
  by (simp add: ex_raft_def ex_log_wf ex_log_bounds) (auto simp: ex_log_def entry_at_def first_index_def)

text \<open>
  C5, counterexample to the claim as stated: the example log holds the entry
  \<open>(term 1, index 4, Set a 1)\<close>, and 4 is greater than the snapshot pointer's index and the
  first log index (both 3); after \<open>Compaction 4\<close> the first entry of the log still carries
  the command \<open>Set a 1\<close>, not nil.
\<close>

theorem Compaction_keeps_command:
  "getLogEntry ex_raft 4 = Inr (Some \<lparr>Term = 1, Index = 4, Cmd = Some cmd_set_a1\<rparr>, True) \<and>
   lastSnapshotLogEntry ex_raft = Some \<lparr>Term = 1, Index = 3, Cmd = None\<rparr> \<and>
   getFirstLogIndex ex_raft = Inr 3 \<and>
   (case Compaction ex_raft 4 of Inl e \<Rightarrow> None | Inr r' \<Rightarrow> Cmd (hd (log r'))) = Some cmd_set_a1"
  by (simp add: ex_raft_def ex_log_def Compaction_def getFirstLogIndex_def getLogEntry_def
      getLogLen_def getLastLogIndex_def getEntryFrom_def index_at_def slice_from_def wrap64_def
      persist_def Let_def)

text \<open>C6, witness: \<open>Compaction 4\<close> and then \<open>Compaction 2\<close> on the example server.\<close>

theorem Compaction_idempotent_witness:
  "log_wf (log ex_raft) \<and> (2::int) \<le> 4 \<and> 4 \<le> last_index (log ex_raft) \<and>
   (\<exists>r1. Compaction ex_raft 4 = Inr r1 \<and> Compaction r1 2 = Inr r1)"
  using Compaction_idempotent [of ex_raft 2 4]
  by (simp add: ex_raft_def ex_log_wf ex_log_bounds)

section \<open>Properties of the leader\<close>

lemma fold_peers_nextIndex:
  "nextIndex (fold (leaderStatePrep_peer ix) ps r0) = (\<lambda>p. if p \<in> set ps then Some ix else nextIndex r0 p)"
  by (induction ps arbitrary: r0) (auto simp: fun_eq_iff leaderStatePrep_peer_def)

lemma fold_peers_matchIndex:
  "matchIndex (fold (leaderStatePrep_peer ix) ps r0) = (\<lambda>p. if p \<in> set ps then Some 0 else matchIndex r0 p)"
  by (induction ps arbitrary: r0) (auto simp: fun_eq_iff leaderStatePrep_peer_def)

lemma fold_peers_frame:
  "fold (leaderStatePrep_peer ix) ps r0 =
   r0\<lparr>nextIndex := nextIndex (fold (leaderStatePrep_peer ix) ps r0),
      matchIndex := matchIndex (fold (leaderStatePrep_peer ix) ps r0)\<rparr>"
proof (induction ps arbitrary: r0)
  case Nil
  then show ?case by simp
next
  case (Cons q qs)
  have "fold (leaderStatePrep_peer ix) (q # qs) r0 = fold (leaderStatePrep_peer ix) qs (leaderStatePrep_peer ix q r0)" by simp
  also have "\<dots> = (leaderStatePrep_peer ix q r0)\<lparr>nextIndex := nextIndex (fold (leaderStatePrep_peer ix) qs (leaderStatePrep_peer ix q r0)),
      matchIndex := matchIndex (fold (leaderStatePrep_peer ix) qs (leaderStatePrep_peer ix q r0))\<rparr>"
    by (rule Cons.IH)
  also have "\<dots> = r0\<lparr>nextIndex := nextIndex (fold (leaderStatePrep_peer ix) (q # qs) r0),
      matchIndex := matchIndex (fold (leaderStatePrep_peer ix) (q # qs) r0)\<rparr>"
    by (simp add: leaderStatePrep_peer_def)
  finally show ?case .
qed

lemma fold_peers:
  "fold (leaderStatePrep_peer ix) ps r0 =
   r0\<lparr>nextIndex := (\<lambda>p. if p \<in> set ps then Some ix else nextIndex r0 p),
      matchIndex := (\<lambda>p. if p \<in> set ps then Some 0 else matchIndex r0 p)\<rparr>"
  by (subst fold_peers_frame) (simp only: fold_peers_nextIndex fold_peers_matchIndex)

lemma leaderStatePrep_unfold:
  assumes ne: "log r \<noteq> []"
  shows "leaderStatePrep r =
     Inr (fold (leaderStatePrep_peer (wrap64 (last_index (log r) + 1))) (peers r)
            (r\<lparr>state := leader, leaderID := me r,
               heartBeatTimer := Armed (HEARTBEAT_TIMEOUT * Millisecond),
               electionTimer := Stopped,
               nextIndex := Map.empty, matchIndex := Map.empty, clientsResponse := Map.empty\<rparr>))"
  using ne
  by (simp add: leaderStatePrep_def Let_def getLastLogIndex_nonempty restartTimer_def stopTimer_def)

text \<open>
  C8. On a server whose log is not empty and whose last index is a non-negative
  \<open>int64\<close> below the maximum, \<open>leaderStatePrep\<close> makes the server leader, sets
  \<open>nextIndex[p]\<close> to the last log index plus one and \<open>matchIndex[p]\<close> to 0 for every
  peer \<open>p\<close> (so \<open>matchIndex[p] < nextIndex[p]\<close>) and for no other key, resets the table
  of pending client replies, stops the election timer and arms the heartbeat timer with
  500 ms.
\<close>

theorem leaderStatePrep_spec:
  assumes ne: "log r \<noteq> []"
    and lo: "0 \<le> last_index (log r)" and hi: "last_index (log r) < 2 ^ 63 - 1"
  shows "\<exists>r'. leaderStatePrep r = Inr r' \<and>
           state r' = leader \<and> leaderID r' = me r \<and>
           (\<forall>p \<in> set (peers r).
              nextIndex r' p = Some (last_index (log r) + 1) \<and>
              matchIndex r' p = Some 0 \<and>
              map_get0 (matchIndex r') p < map_get0 (nextIndex r') p) \<and>
           dom (nextIndex r') = set (peers r) \<and> dom (matchIndex r') = set (peers r) \<and>
           clientsResponse r' = Map.empty \<and>
           electionTimer r' = Stopped \<and>
           heartBeatTimer r' = Armed (500 * Millisecond) \<and>
           log r' = log r \<and> currentTerm r' = currentTerm r \<and>
           commitIndex r' = commitIndex r \<and> lastApplied r' = lastApplied r"
proof -
  let ?ix = "wrap64 (last_index (log r) + 1)"
  let ?r4 = "r\<lparr>state := leader, leaderID := me r,
               heartBeatTimer := Armed (HEARTBEAT_TIMEOUT * Millisecond),
               electionTimer := Stopped,
               nextIndex := Map.empty, matchIndex := Map.empty, clientsResponse := Map.empty\<rparr>"
  let ?r' = "fold (leaderStatePrep_peer ?ix) (peers r) ?r4"
  from lo hi have w: "?ix = last_index (log r) + 1"
    by (intro wrap64_id) auto
  have res: "leaderStatePrep r = Inr ?r'" using ne by (rule leaderStatePrep_unfold)
  have n: "nextIndex ?r' = (\<lambda>p. if p \<in> set (peers r) then Some (last_index (log r) + 1) else None)"
    by (auto simp: fold_peers_nextIndex w fun_eq_iff)
  have m: "matchIndex ?r' = (\<lambda>p. if p \<in> set (peers r) then Some 0 else None)"
    by (auto simp: fold_peers_matchIndex fun_eq_iff)
  have fr: "?r' = ?r4\<lparr>nextIndex := nextIndex ?r', matchIndex := matchIndex ?r'\<rparr>"
    by (rule fold_peers_frame)
  have f1: "state ?r' = leader" by (subst fr) simp
  have f2: "leaderID ?r' = me r" by (subst fr) simp
  have f3: "clientsResponse ?r' = Map.empty" by (subst fr) simp
  have f4: "electionTimer ?r' = Stopped" by (subst fr) simp
  have f5: "heartBeatTimer ?r' = Armed (500 * Millisecond)"
    by (subst fr) (simp add: HEARTBEAT_TIMEOUT_def)
  have f6: "log ?r' = log r" by (subst fr) simp
  have f7: "currentTerm ?r' = currentTerm r" by (subst fr) simp
  have f8: "commitIndex ?r' = commitIndex r" by (subst fr) simp
  have f9: "lastApplied ?r' = lastApplied r" by (subst fr) simp
  have peers: "\<forall>p \<in> set (peers r).
              nextIndex ?r' p = Some (last_index (log r) + 1) \<and>
              matchIndex ?r' p = Some 0 \<and>
              map_get0 (matchIndex ?r') p < map_get0 (nextIndex ?r') p"
    using lo by (simp add: n m map_get0_def)
  have d1: "dom (nextIndex ?r') = set (peers r)" by (auto simp: n dom_def)
  have d2: "dom (matchIndex ?r') = set (peers r)" by (auto simp: m dom_def)
  from res f1 f2 f3 f4 f5 f6 f7 f8 f9 peers d1 d2 show ?thesis by blast
qed

text \<open>C8, witness: the example server, whose last log index is 5.\<close>

theorem leaderStatePrep_spec_witness:
  "log ex_raft \<noteq> [] \<and> 0 \<le> last_index (log ex_raft) \<and> last_index (log ex_raft) < 2 ^ 63 - 1 \<and>
   (\<exists>r'. leaderStatePrep ex_raft = Inr r' \<and>
      nextIndex r' ''s2'' = Some 6 \<and> matchIndex r' ''s2'' = Some 0 \<and>
      clientsResponse r' = Map.empty \<and> electionTimer r' = Stopped \<and>
      heartBeatTimer r' = Armed (500 * Millisecond))"
  using leaderStatePrep_spec [of ex_raft]
  by (simp add: ex_raft_def ex_log_bounds) (auto simp: ex_log_def)

section \<open>Properties of the apply pump\<close>

lemma HandleCommand_well_formed:
  "well_formed_cmd c \<Longrightarrow> \<exists>s1 res. HandleCommand s \<lparr>command = c, response = ch\<rparr> = Inr (s1, res)"
  by (cases "Operation c")
     (auto simp: well_formed_cmd_def HandleCommand_def SetInternal_def ClearInternal_def
        CasInternal_def Let_def split: option.splits)

lemma pending_step:
  assumes wf: "log_wf (log r)"
    and lo: "first_index (log r) \<le> lastApplied r + 1"
    and lt: "lastApplied r < commitIndex r"
    and hi: "commitIndex r \<le> last_index (log r)"
    and r2: "log r2 = log r" "commitIndex r2 = commitIndex r" "lastApplied r2 = lastApplied r + 1"
  shows "pending r = entry_at (log r) (lastApplied r + 1) # pending r2"
proof -
  let ?f = "first_index (log r)"
  let ?k = "nat (lastApplied r + 1 - ?f)"
  from hi lt log_wf_last [OF wf] lo have k: "?k < length (log r)" by simp
  then have d: "drop ?k (log r) = (log r ! ?k) # drop (Suc ?k) (log r)"
    by (simp add: Cons_nth_drop_Suc)
  from lt have n: "nat (commitIndex r - lastApplied r) = Suc (nat (commitIndex r - (lastApplied r + 1)))"
    by simp
  from lo have s: "nat (lastApplied r + 1 + 1 - ?f) = Suc ?k" by simp
  show ?thesis
    unfolding pending_def r2 n s d entry_at_def by simp
qed

lemma ProcessLogs_loop_done:
  "\<not> lastApplied r < commitIndex r \<Longrightarrow> ProcessLogs_loop r s = Inr (r, s, [])"
  by (subst ProcessLogs_loop.simps) simp

lemma ProcessLogs_loop_step:
  assumes "lastApplied r < commitIndex r"
    and "getLogEntry (r\<lparr>lastApplied := lastApplied r + 1\<rparr>) (lastApplied r + 1) = Inr (Some e, ok)"
    and "Cmd e = Some c"
    and "HandleCommand s \<lparr>command = c,
           response = (if state r = leader then clientsResponse r (Index e) else None)\<rparr> = Inr (s1, res)"
    and "ProcessLogs_loop
           (r\<lparr>lastApplied := lastApplied r + 1,
              clientsResponse := (clientsResponse r)(Index e := None)\<rparr>) s1 = Inr (r3, s3, tr)"
  shows "ProcessLogs_loop r s =
           Inr (r3, s3,
                (Index e,
                 \<lparr>command = c,
                  response = (if state r = leader then clientsResponse r (Index e) else None)\<rparr>,
                 res) # tr)"
proof (cases "state r = leader")
  case True
  with assms show ?thesis
    by (subst ProcessLogs_loop.simps) (simp add: Let_def)
next
  case False
  with assms show ?thesis
    by (subst ProcessLogs_loop.simps) (simp add: Let_def)
qed

lemma ProcessLogs_loop_run:
  assumes wf: "log_wf (log r)"
    and lo: "first_index (log r) \<le> lastApplied r + 1"
    and le: "lastApplied r \<le> commitIndex r"
    and hi: "commitIndex r \<le> last_index (log r)"
    and ok: "entries_ok (pending r)"
  shows "\<exists>s' tr.
           ProcessLogs_loop r s =
             Inr (r\<lparr>lastApplied := commitIndex r,
                    clientsResponse :=
                      (\<lambda>i. if lastApplied r < i \<and> i \<le> commitIndex r then None
                           else clientsResponse r i)\<rparr>, s', tr) \<and>
           map fst tr = [lastApplied r + 1..commitIndex r] \<and>
           map (fst \<circ> snd) tr =
             map (\<lambda>i. \<lparr>command = the (Cmd (entry_at (log r) i)),
                        response = (if state r = leader then clientsResponse r i else None)\<rparr>)
               [lastApplied r + 1..commitIndex r] \<and>
           HandleCommands s (map (fst \<circ> snd) tr) = Inr (s', map (snd \<circ> snd) tr)"
  using assms
proof (induction "nat (commitIndex r - lastApplied r)" arbitrary: r s)
  case 0
  then have eq: "commitIndex r = lastApplied r" by simp
  have cr: "(\<lambda>i. if lastApplied r < i \<and> i \<le> lastApplied r then None else clientsResponse r i)
               = clientsResponse r"
    by (auto simp: fun_eq_iff)
  have "ProcessLogs_loop r s = Inr (r, s, [])"
    by (rule ProcessLogs_loop_done) (simp add: eq)
  then show ?case by (simp add: cr eq)
next
  case (Suc n)
  let ?a = "lastApplied r" and ?c = "commitIndex r"
  let ?e = "entry_at (log r) (?a + 1)"
  let ?r1 = "r\<lparr>lastApplied := ?a + 1\<rparr>"
  let ?r2 = "?r1\<lparr>clientsResponse := (clientsResponse ?r1)(?a + 1 := None)\<rparr>"
  from Suc.hyps(2) have lt: "?a < ?c" by simp
  have lo1: "first_index (log ?r1) \<le> ?a + 1" using Suc.prems(2) by simp
  have hi1: "?a + 1 \<le> last_index (log ?r1)" using lt Suc.prems(4) by simp
  have wf1: "log_wf (log ?r1)" using Suc.prems(1) by simp
  have g: "getLogEntry ?r1 (?a + 1) = Inr (Some ?e, True)"
    using getLogEntry_inside [OF wf1 lo1 hi1] by simp
  have ix: "Index ?e = ?a + 1"
    using entry_at_Index [OF wf1 lo1 hi1] by simp
  have p: "pending r = ?e # pending ?r2"
    by (rule pending_step [OF Suc.prems(1) Suc.prems(2) lt Suc.prems(4)]) simp_all
  with Suc.prems(5) obtain c where c: "Cmd ?e = Some c" and wc: "well_formed_cmd c"
    and ok2: "entries_ok (pending ?r2)"
    by (auto split: option.splits)
  let ?op = "\<lparr>command = c, response = (if state r = leader then clientsResponse r (?a + 1) else None)\<rparr>"
  from HandleCommand_well_formed [OF wc] obtain s1 res
    where h: "HandleCommand s ?op = Inr (s1, res)" by blast
  have n2: "n = nat (commitIndex ?r2 - lastApplied ?r2)" using Suc.hyps(2) by simp
  have ih: "\<exists>s' tr.
           ProcessLogs_loop ?r2 s1 =
             Inr (?r2\<lparr>lastApplied := commitIndex ?r2,
                    clientsResponse :=
                      (\<lambda>i. if lastApplied ?r2 < i \<and> i \<le> commitIndex ?r2 then None
                           else clientsResponse ?r2 i)\<rparr>, s', tr) \<and>
           map fst tr = [lastApplied ?r2 + 1..commitIndex ?r2] \<and>
           map (fst \<circ> snd) tr =
             map (\<lambda>i. \<lparr>command = the (Cmd (entry_at (log ?r2) i)),
                        response = (if state ?r2 = leader then clientsResponse ?r2 i else None)\<rparr>)
               [lastApplied ?r2 + 1..commitIndex ?r2] \<and>
           HandleCommands s1 (map (fst \<circ> snd) tr) = Inr (s', map (snd \<circ> snd) tr)"
  proof (rule Suc.hyps(1) [OF n2])
    show "log_wf (log ?r2)" using Suc.prems(1) by simp
    show "first_index (log ?r2) \<le> lastApplied ?r2 + 1" using Suc.prems(2) by simp
    show "lastApplied ?r2 \<le> commitIndex ?r2" using lt by simp
    show "commitIndex ?r2 \<le> last_index (log ?r2)" using Suc.prems(4) by simp
    show "entries_ok (pending ?r2)" by (rule ok2)
  qed
  then obtain s' tr where
    run: "ProcessLogs_loop ?r2 s1 =
             Inr (?r2\<lparr>lastApplied := commitIndex ?r2,
                    clientsResponse :=
                      (\<lambda>i. if lastApplied ?r2 < i \<and> i \<le> commitIndex ?r2 then None
                           else clientsResponse ?r2 i)\<rparr>, s', tr)"
    and idx: "map fst tr = [lastApplied ?r2 + 1..commitIndex ?r2]"
    and ops: "map (fst \<circ> snd) tr =
             map (\<lambda>i. \<lparr>command = the (Cmd (entry_at (log ?r2) i)),
                        response = (if state ?r2 = leader then clientsResponse ?r2 i else None)\<rparr>)
               [lastApplied ?r2 + 1..commitIndex ?r2]"
    and hc: "HandleCommands s1 (map (fst \<circ> snd) tr) = Inr (s', map (snd \<circ> snd) tr)"
    by blast
  have cr: "(\<lambda>i. if lastApplied ?r2 < i \<and> i \<le> commitIndex ?r2 then None
                else clientsResponse ?r2 i)
          = (\<lambda>i. if ?a < i \<and> i \<le> ?c then None else clientsResponse r i)"
    using lt by (auto simp: fun_eq_iff)
  have fin: "?r2\<lparr>lastApplied := commitIndex ?r2,
                    clientsResponse :=
                      (\<lambda>i. if lastApplied ?r2 < i \<and> i \<le> commitIndex ?r2 then None
                           else clientsResponse ?r2 i)\<rparr>
           = r\<lparr>lastApplied := ?c,
                clientsResponse := (\<lambda>i. if ?a < i \<and> i \<le> ?c then None else clientsResponse r i)\<rparr>"
    by (simp only: cr) simp
  let ?tr = "(?a + 1, ?op, res) # tr"
  have loop: "ProcessLogs_loop r s =
      Inr (r\<lparr>lastApplied := ?c,
             clientsResponse := (\<lambda>i. if ?a < i \<and> i \<le> ?c then None else clientsResponse r i)\<rparr>,
           s', ?tr)"
  proof -
    have run': "ProcessLogs_loop
           (r\<lparr>lastApplied := ?a + 1,
              clientsResponse := (clientsResponse r)(Index ?e := None)\<rparr>) s1 =
          Inr (r\<lparr>lastApplied := ?c,
             clientsResponse := (\<lambda>i. if ?a < i \<and> i \<le> ?c then None else clientsResponse r i)\<rparr>,
           s', tr)"
      using run unfolding fin by (simp add: ix)
    have h': "HandleCommand s \<lparr>command = c,
           response = (if state r = leader then clientsResponse r (Index ?e) else None)\<rparr> = Inr (s1, res)"
      using h by (simp only: ix)
    show ?thesis
      using ProcessLogs_loop_step [OF lt g c h' run'] by (simp only: ix)
  qed
  have up: "[?a + 1..?c] = (?a + 1) # [?a + 1 + 1..?c]"
    using lt by (simp add: upto_rec1)
  have idx': "map fst ?tr = [?a + 1..?c]"
    using idx by (simp add: up)
  have same: "map (\<lambda>i. \<lparr>command = the (Cmd (entry_at (log ?r2) i)),
                        response = (if state ?r2 = leader then clientsResponse ?r2 i else None)\<rparr>)
               [?a + 1 + 1..?c]
            = map (\<lambda>i. \<lparr>command = the (Cmd (entry_at (log r) i)),
                        response = (if state r = leader then clientsResponse r i else None)\<rparr>)
               [?a + 1 + 1..?c]"
    by (rule map_cong) auto
  have ops': "map (fst \<circ> snd) ?tr =
             map (\<lambda>i. \<lparr>command = the (Cmd (entry_at (log r) i)),
                        response = (if state r = leader then clientsResponse r i else None)\<rparr>)
               [?a + 1..?c]"
    using ops same c by (simp add: up)
  have hc': "HandleCommands s (map (fst \<circ> snd) ?tr) = Inr (s', map (snd \<circ> snd) ?tr)"
    using h hc by simp
  from loop idx' ops' hc' show ?case by blast
qed

lemma Compaction_frame:
  assumes wf: "log_wf (log r)"
    and lo: "first_index (log r) \<le> i" and hi: "i \<le> last_index (log r)"
  shows "\<exists>r'. Compaction r i = Inr r' \<and> lastApplied r' = lastApplied r \<and>
           commitIndex r' = commitIndex r \<and> clientsResponse r' = clientsResponse r \<and>
           state r' = state r"
proof (cases "compaction_due r i")
  case True
  from Compaction_cut [OF wf True lo hi] show ?thesis by (simp add: persist_def)
next
  case False
  from wf have "log r \<noteq> []" by (simp add: log_wf_def)
  from Compaction_skip [OF this False] show ?thesis by simp
qed

text \<open>
  The apply pump on commands \<open>HandleCommand\<close> has a case for. On a server with a
  well-formed log and \<open>first log index \<le> lastApplied \<le> commitIndex \<le> last log index\<close>,
  whose committed entries not yet applied carry such commands, \<open>ProcessLogs\<close> returns
  with \<open>lastApplied = commitIndex\<close>. It calls \<open>HandleCommand\<close> exactly once for each
  index from \<open>lastApplied + 1\<close> to \<open>commitIndex\<close>, in strictly increasing order, with
  the command of the entry at that index and with the reply channel stored under that
  index when the server is leader and nil otherwise; the store it returns is the one
  these calls produce in that order; and the stored reply channels of the applied
  indices are removed, the others kept.
\<close>

theorem ProcessLogs_applies_committed:
  assumes wf: "log_wf (log r)"
    and lo: "first_index (log r) \<le> lastApplied r"
    and le: "lastApplied r \<le> commitIndex r"
    and hi: "commitIndex r \<le> last_index (log r)"
    and ok: "entries_ok (pending r)"
  shows "\<exists>r' s' tr.
           ProcessLogs r s = Inr (r', s', tr) \<and>
           lastApplied r' = commitIndex r \<and> commitIndex r' = commitIndex r \<and>
           map fst tr = [lastApplied r + 1..commitIndex r] \<and>
           sorted (map fst tr) \<and> distinct (map fst tr) \<and>
           map (fst \<circ> snd) tr =
             map (\<lambda>i. \<lparr>command = the (Cmd (entry_at (log r) i)),
                        response = (if state r = leader then clientsResponse r i else None)\<rparr>)
               [lastApplied r + 1..commitIndex r] \<and>
           HandleCommands s (map (fst \<circ> snd) tr) = Inr (s', map (snd \<circ> snd) tr) \<and>
           clientsResponse r' =
             (\<lambda>i. if lastApplied r < i \<and> i \<le> commitIndex r then None else clientsResponse r i)"
proof -
  let ?F = "\<lambda>i. if lastApplied r < i \<and> i \<le> commitIndex r then None else clientsResponse r i"
  let ?r1 = "r\<lparr>lastApplied := commitIndex r, clientsResponse := ?F\<rparr>"
  from lo have lo1: "first_index (log r) \<le> lastApplied r + 1" by simp
  from ProcessLogs_loop_run [OF wf lo1 le hi ok, of s] obtain s' tr where
    run: "ProcessLogs_loop r s = Inr (?r1, s', tr)"
    and idx: "map fst tr = [lastApplied r + 1..commitIndex r]"
    and ops: "map (fst \<circ> snd) tr =
             map (\<lambda>i. \<lparr>command = the (Cmd (entry_at (log r) i)),
                        response = (if state r = leader then clientsResponse r i else None)\<rparr>)
               [lastApplied r + 1..commitIndex r]"
    and hc: "HandleCommands s (map (fst \<circ> snd) tr) = Inr (s', map (snd \<circ> snd) tr)"
    by blast
  from idx have sd: "sorted (map fst tr) \<and> distinct (map fst tr)" by simp
  let ?r2 = "?r1\<lparr>persister := SaveSnapshot (persister ?r1) (gob_Encode (store s'))\<rparr>"
  have "\<exists>r'. ProcessLogs r s = Inr (r', s', tr) \<and> lastApplied r' = commitIndex r \<and>
          commitIndex r' = commitIndex r \<and> clientsResponse r' = ?F"
  proof (cases "int (length (log r)) \<ge> 30")
    case False
    with run have "ProcessLogs r s = Inr (?r1, s', tr)"
      by (simp add: ProcessLogs_def LOG_COMPACTION_LIMIT_def)
    then show ?thesis by simp
  next
    case True
    have wf2: "log_wf (log ?r2)" using wf by simp
    have lo2: "first_index (log ?r2) \<le> commitIndex r" using lo le by simp
    have hi2: "commitIndex r \<le> last_index (log ?r2)" using hi by simp
    from Compaction_frame [OF wf2 lo2 hi2] obtain r3 where
      c: "Compaction ?r2 (commitIndex r) = Inr r3" and
      f: "lastApplied r3 = commitIndex r" "commitIndex r3 = commitIndex r" "clientsResponse r3 = ?F"
      by auto
    from run True c have "ProcessLogs r s = Inr (r3, s', tr)"
      by (simp add: ProcessLogs_def Let_def LOG_COMPACTION_LIMIT_def)
    with f show ?thesis by simp
  qed
  with idx sd ops hc show ?thesis by blast
qed

lemma ex_pending: "pending ex_raft =
   [\<lparr>Term = 1, Index = 4, Cmd = Some cmd_set_a1\<rparr>, \<lparr>Term = 2, Index = 5, Cmd = Some cmd_get_a\<rparr>]"
  by (simp add: pending_def ex_raft_def ex_log_def first_index_def)

lemma ex_entries_ok: "entries_ok (pending ex_raft)"
  by (simp add: ex_pending well_formed_cmd_def cmd_set_a1_def cmd_get_a_def GetSet_def GetGet_def)

text \<open>
  An instance: the example leader applies the entries 4 and 5, in this order, with the
  reply channels 11 and 12 stored under them.
\<close>

theorem ProcessLogs_applies_committed_witness:
  "log_wf (log ex_raft) \<and> first_index (log ex_raft) \<le> lastApplied ex_raft \<and>
   lastApplied ex_raft \<le> commitIndex ex_raft \<and> commitIndex ex_raft \<le> last_index (log ex_raft) \<and>
   entries_ok (pending ex_raft) \<and>
   (\<exists>r' s' tr. ProcessLogs ex_raft kv_a1 = Inr (r', s', tr) \<and> lastApplied r' = 5 \<and>
      map fst tr = [4, 5] \<and>
      map (fst \<circ> snd) tr =
        [\<lparr>command = cmd_set_a1, response = Some 11\<rparr>, \<lparr>command = cmd_get_a, response = Some 12\<rparr>] \<and>
      clientsResponse r' 4 = None \<and> clientsResponse r' 5 = None)"
proof -
  have u: "[(4::int)..5] = [4, 5]" by (simp add: upto_rec1)
  have h: "log_wf (log ex_raft) \<and> first_index (log ex_raft) \<le> lastApplied ex_raft \<and>
   lastApplied ex_raft \<le> commitIndex ex_raft \<and> commitIndex ex_raft \<le> last_index (log ex_raft)"
    by (simp add: ex_raft_def ex_log_wf ex_log_bounds)
  have e4: "entry_at (log ex_raft) 4 = \<lparr>Term = 1, Index = 4, Cmd = Some cmd_set_a1\<rparr>"
    by (simp add: ex_raft_def ex_log_def entry_at_def first_index_def)
  have e5: "entry_at (log ex_raft) 5 = \<lparr>Term = 2, Index = 5, Cmd = Some cmd_get_a\<rparr>"
    by (simp add: ex_raft_def ex_log_def entry_at_def first_index_def)
  have v: "lastApplied ex_raft = 3 \<and> commitIndex ex_raft = 5 \<and> state ex_raft = leader \<and>
           clientsResponse ex_raft 4 = Some 11 \<and> clientsResponse ex_raft 5 = Some 12"
    by (simp add: ex_raft_def)
  from h ex_entries_ok ProcessLogs_applies_committed [of ex_raft kv_a1]
  show ?thesis
    by (simp add: v u e4 e5) fastforce
qed

lemma ProcessLogs_config_chg_fatal: "ProcessLogs ex_raft_config s = Inl Fatal"
proof -
  have "ProcessLogs_loop ex_raft_config s = Inl Fatal"
    by (subst ProcessLogs_loop.simps)
       (simp add: ex_raft_config_def ex_raft_def getLogEntry_def getLogLen_def
          getLastLogIndex_def index_at_def wrap64_def Let_def HandleCommand_def cmd_config_def)
  then show ?thesis by (simp add: ProcessLogs_def)
qed

lemma ex_raft_config_state:
  "log_wf (log ex_raft_config) \<and> first_index (log ex_raft_config) = 3 \<and>
   last_index (log ex_raft_config) = 4 \<and> lastApplied ex_raft_config = 3 \<and>
   commitIndex ex_raft_config = 4"
  by (simp add: ex_raft_config_def ex_raft_def log_wf_def first_index_def last_index_def)

text \<open>
  C4. \<open>ProcessLogs\<close> does not apply every committed entry. The example server has a
  well-formed log with \<open>first log index \<le> lastApplied \<le> commitIndex \<le> last log index\<close>
  (3, 3, 4, 4) and a committed ChangeConfiguration entry at index 4; \<open>ProcessLogs\<close> passes
  its command to \<open>HandleCommand\<close> like any other, and the process exits in
  \<open>log.Fatalf\<close> instead of returning with \<open>lastApplied = commitIndex\<close>.
\<close>

theorem ProcessLogs_exits_on_committed_config_chg:
  "log_wf (log ex_raft_config) \<and>
   first_index (log ex_raft_config) \<le> lastApplied ex_raft_config \<and>
   lastApplied ex_raft_config \<le> commitIndex ex_raft_config \<and>
   commitIndex ex_raft_config \<le> last_index (log ex_raft_config) \<and>
   ProcessLogs ex_raft_config s = Inl Fatal"
  by (simp add: ex_raft_config_state ProcessLogs_config_chg_fatal)

text \<open>
  A committed CompareAndSet entry whose argument has no key/value pair makes the pump
  panic: \<open>HandleCommand\<close> reads \<open>arg.Kv.Key\<close> through the nil pointer.
\<close>

lemma ProcessLogs_cas_nil_panics: "ProcessLogs ex_raft_cas_nil s = Inl Panic"
proof -
  have "ProcessLogs_loop ex_raft_cas_nil s = Inl Panic"
    by (subst ProcessLogs_loop.simps)
       (simp add: ex_raft_cas_nil_def ex_raft_def getLogEntry_def getLogLen_def
          getLastLogIndex_def index_at_def wrap64_def Let_def HandleCommand_def cmd_cas_nil_def
          GetCas_def)
  then show ?thesis by (simp add: ProcessLogs_def)
qed

section \<open>Properties of replication\<close>

lemma AppendEntries_goroutine_matchIndex:
  "matchIndex_r (AppendEntries_goroutine r_now args p rt er) =
     wrap64 (PrevLogIndex args + int (length (Entries args)))"
  by (simp add: AppendEntries_goroutine_def)

lemma AppendEntries_goroutine_requestTerm:
  "requestTerm (AppendEntries_goroutine r_now args p rt er) = currentTerm r_now"
  by (simp add: AppendEntries_goroutine_def)

text \<open>
  What \<open>sendApeendEntriesTo\<close> builds on a well-formed log: an AppendEntries request with
  the term of the entry at \<open>prevLogIndex\<close> and the log suffix from \<open>nextIndex[p]\<close> when
  the previous entry is in the log, the same with previous term 0 when \<open>nextIndex[p]\<close>
  is 1, and an InstallSnapshot request with the snapshot pointer and blob when the
  previous entry lies before the first log index.
\<close>

lemma sendApeendEntriesTo_append:
  assumes wf: "log_wf (log r)"
    and f0: "0 \<le> first_index (log r)" and l0: "last_index (log r) < 2 ^ 63 - 1"
    and n: "map_get0 (nextIndex r) p = n"
    and lo: "first_index (log r) < n" and hi: "n \<le> last_index (log r) + 1"
    and n1: "n \<noteq> 1"
  shows "sendApeendEntriesTo r p =
           Inr (Call_AppendEntries
                 \<lparr>Term_a = currentTerm r, LeaderID_a = me r, PrevLogIndex = n - 1,
                  PrevLogTerm = Term (entry_at (log r) (n - 1)), LeaderCommit = commitIndex r,
                  Entries = drop (nat (n - first_index (log r))) (log r)\<rparr>)"
proof -
  from wf have ne: "log r \<noteq> []" by (simp add: log_wf_def)
  from f0 lo hi l0 have w1: "wrap64 (n - 1) = n - 1" by (intro wrap64_id) auto
  from f0 lo hi l0 have w2: "wrap64 (n - 1 + 1) = n" by (simp add: wrap64_id)
  from lo hi have g: "getLogEntry r (n - 1) = Inr (Some (entry_at (log r) (n - 1)), True)"
    by (intro getLogEntry_inside [OF wf]) auto
  from lo hi have e: "getEntryFrom r n = Inr (drop (nat (n - first_index (log r))) (log r))"
    by (intro getEntryFrom_inside [OF wf]) auto
  have p: "\<exists>x. getLogEntry r n = Inr x"
  proof (cases "n \<le> last_index (log r)")
    case True
    with lo getLogEntry_inside [OF wf, of n] show ?thesis by fastforce
  next
    case False
    with ne getLogEntry_outside [of r n] show ?thesis by fastforce
  qed
  then obtain x where p': "getLogEntry r n = Inr x" ..
  show ?thesis
  proof (cases "n \<le> last_index (log r)")
    case True
    with ne n n1 w1 w2 g e p' show ?thesis
      by (simp add: sendApeendEntriesTo_def getLastLogIndex_nonempty Let_def)
  next
    case False
    with hi have nl: "n = last_index (log r) + 1" by simp
    with log_wf_last [OF wf] have "nat (n - first_index (log r)) = length (log r)" by simp
    then have "drop (nat (n - first_index (log r))) (log r) = []" by simp
    with False ne n n1 w1 w2 g show ?thesis
      by (simp add: sendApeendEntriesTo_def getLastLogIndex_nonempty Let_def)
  qed
qed

lemma sendApeendEntriesTo_first_entry:
  assumes wf: "log_wf (log r)"
    and n: "map_get0 (nextIndex r) p = 1"
    and lo: "first_index (log r) \<le> 1" and hi: "1 \<le> last_index (log r) + 1"
  shows "sendApeendEntriesTo r p =
           Inr (Call_AppendEntries
                 \<lparr>Term_a = currentTerm r, LeaderID_a = me r, PrevLogIndex = 0,
                  PrevLogTerm = 0, LeaderCommit = commitIndex r,
                  Entries = drop (nat (1 - first_index (log r))) (log r)\<rparr>)"
proof -
  from wf have ne: "log r \<noteq> []" by (simp add: log_wf_def)
  have w1: "wrap64 (1 - 1) = 0" "wrap64 (0 + 1) = 1" by (simp_all add: wrap64_def)
  from lo hi have e: "getEntryFrom r 1 = Inr (drop (nat (1 - first_index (log r))) (log r))"
    by (intro getEntryFrom_inside [OF wf]) auto
  have p: "\<exists>x. getLogEntry r 1 = Inr x"
  proof (cases "1 \<le> last_index (log r)")
    case True
    with lo getLogEntry_inside [OF wf, of 1] show ?thesis by fastforce
  next
    case False
    with ne getLogEntry_outside [of r 1] show ?thesis by fastforce
  qed
  then obtain x where p': "getLogEntry r 1 = Inr x" ..
  show ?thesis
  proof (cases "1 \<le> last_index (log r)")
    case True
    with ne n w1 e p' show ?thesis
      by (simp add: sendApeendEntriesTo_def getLastLogIndex_nonempty Let_def)
  next
    case False
    with hi have nl: "last_index (log r) = 0" by simp
    with log_wf_last [OF wf] have "nat (1 - first_index (log r)) = length (log r)" by simp
    then have "drop (nat (1 - first_index (log r))) (log r) = []" by simp
    with False ne n w1 show ?thesis
      by (simp add: sendApeendEntriesTo_def getLastLogIndex_nonempty Let_def)
  qed
qed

lemma sendApeendEntriesTo_snapshot:
  assumes wf: "log_wf (log r)"
    and n: "map_get0 (nextIndex r) p = n"
    and lo: "n - 1 < first_index (log r)" and n1: "n \<noteq> 1" and r: "- (2 ^ 63) < n" "n \<le> 2 ^ 63"
    and sn: "lastSnapshotLogEntry r = Some sn"
  shows "sendApeendEntriesTo r p =
           Inr (Call_InstallSnapshot
                 \<lparr>Term_s = currentTerm r, LeaderID_s = me r, LastLogEntry = Some sn,
                  Data = ReadSnapshot (persister r)\<rparr>)"
proof -
  from wf have ne: "log r \<noteq> []" by (simp add: log_wf_def)
  from r have w1: "wrap64 (n - 1) = n - 1" by (intro wrap64_id) auto
  from lo ne have g: "getLogEntry r (n - 1) = Inr (None, False)"
    by (intro getLogEntry_outside) auto
  from ne n n1 w1 g sn show ?thesis
    by (simp add: sendApeendEntriesTo_def getLastLogIndex_nonempty Let_def)
qed

lemma InstallSnapshot_goroutine_requestTerm:
  "requestTerm_s (InstallSnapshot_goroutine r_now args p rt er) = currentTerm r_now"
  by (simp add: InstallSnapshot_goroutine_def)

lemma sendApeendEntriesTo_ex_s2: "sendApeendEntriesTo ex_raft ''s2'' = Inr (Call_AppendEntries ex_args)"
  using sendApeendEntriesTo_append [of ex_raft "''s2''" 4]
  by (simp add: ex_raft_def ex_log_wf ex_log_bounds map_get0_def ex_args_def)
     (simp add: ex_log_def entry_at_def first_index_def)

text \<open>
  C7. The response is not tagged with the sending term. The example leader, in term 2,
  builds for \<open>s2\<close> the AppendEntries request \<open>ex_args\<close> (term 2, \<open>prevLogIndex\<close> 3, the
  entries 4 and 5). When the call returns after the server has moved to term 5, the
  goroutine tags the response with \<open>requestTerm = 5\<close>, the term it reads then, while
  \<open>matchIndex\<close> is \<open>prevLogIndex\<close> plus the number of entries sent, 5.
\<close>

theorem AppendEntries_reply_tagged_with_later_term:
  "sendApeendEntriesTo ex_raft ''s2'' = Inr (Call_AppendEntries ex_args) \<and>
   currentTerm ex_raft = 2 \<and> Term_a ex_args = 2 \<and>
   requestTerm (AppendEntries_goroutine ex_raft_later ex_args ''s2'' rt er) = 5 \<and>
   matchIndex_r (AppendEntries_goroutine ex_raft_later ex_args ''s2'' rt er) = 5"
  by (simp add: sendApeendEntriesTo_ex_s2 AppendEntries_goroutine_def ex_raft_later_def)
     (simp add: ex_raft_def ex_args_def wrap64_def)

text \<open>
  With \<open>nextIndex[p] = 1\<close> on the compacted example log (first index 3) the check of the
  previous entry is skipped, since \<open>prevLogIndex\<close> is 0, and slicing the log from index 1
  panics.
\<close>

lemma sendApeendEntriesTo_next1_compacted:
  "sendApeendEntriesTo (ex_raft\<lparr>nextIndex := [''s2'' \<mapsto> 1]\<rparr>) ''s2'' = Inl Panic"
  by (simp add: sendApeendEntriesTo_def getLastLogIndex_def getLogEntry_def getLogLen_def
      getEntryFrom_def index_at_def slice_from_def wrap64_def map_get0_def Let_def
      ex_raft_def ex_log_def)

end
